theory Spec2Isabelle
  imports Main
begin

section \<open>Text and character classes\<close>

text \<open>
  A source buffer is a Python \<open>str\<close>. It is modelled as a \<open>string\<close>, one \<open>char\<close> per
  code point, for code points below 256. The three predicates below are the classes
  \<open>\s\<close>, \<open>\d\<close> and \<open>\w\<close> of Python's \<open>re\<close> on \<open>str\<close> patterns, restricted to that range;
  \<open>is_space\<close> is also the set that \<open>str.strip()\<close> removes.
\<close>

definition newline :: char where
  "newline = CHR 0x0A"

definition squote :: char where
  "squote = CHR 0x27"

definition dquote :: char where
  "dquote = CHR 0x22"

definition is_space :: "char \<Rightarrow> bool" where
  "is_space c = (let n = (of_char c :: nat) in
     (9 \<le> n \<and> n \<le> 13) \<or> (28 \<le> n \<and> n \<le> 32) \<or> n = 133 \<or> n = 160)"

definition is_digit :: "char \<Rightarrow> bool" where
  "is_digit c = (let n = (of_char c :: nat) in 48 \<le> n \<and> n \<le> 57)"

definition is_word :: "char \<Rightarrow> bool" where
  "is_word c = (let n = (of_char c :: nat) in
     (48 \<le> n \<and> n \<le> 57) \<or> (65 \<le> n \<and> n \<le> 90) \<or> n = 95 \<or> (97 \<le> n \<and> n \<le> 122)
     \<or> n = 170 \<or> n = 178 \<or> n = 179 \<or> n = 181 \<or> n = 185 \<or> n = 186
     \<or> (188 \<le> n \<and> n \<le> 190) \<or> (192 \<le> n \<and> n \<le> 214) \<or> (216 \<le> n \<and> n \<le> 246)
     \<or> 248 \<le> n)"

section \<open>Python string operations used by the fixer\<close>

fun strip_prefix :: "string \<Rightarrow> string \<Rightarrow> string option" where
  "strip_prefix [] s = Some s"
| "strip_prefix (c # w) [] = None"
| "strip_prefix (c # w) (d # s) = (if c = d then strip_prefix w s else None)"

text \<open>\<open>sub in s\<close>\<close>

fun py_in :: "string \<Rightarrow> string \<Rightarrow> bool" where
  "py_in w [] = (w = [])"
| "py_in w (c # s) = (strip_prefix w (c # s) \<noteq> None \<or> py_in w s)"

text \<open>\<open>s.split(sep)\<close> for a one-character separator: always at least one piece.\<close>

fun py_split :: "char \<Rightarrow> string \<Rightarrow> string list" where
  "py_split sep [] = [[]]"
| "py_split sep (c # s) =
     (if c = sep then [] # py_split sep s
      else (case py_split sep s of p # ps \<Rightarrow> (c # p) # ps | [] \<Rightarrow> [[c]]))"

definition py_strip :: "string \<Rightarrow> string" where
  "py_strip s = rev (dropWhile is_space (rev (dropWhile is_space s)))"

text \<open>\<open>sep.join(xs)\<close>\<close>

fun py_join :: "string \<Rightarrow> string list \<Rightarrow> string" where
  "py_join sep [] = []"
| "py_join sep [x] = x"
| "py_join sep (x # y # ys) = x @ sep @ py_join sep (y # ys)"

text \<open>\<open>s.replace(old, new, 1)\<close> for a non-empty \<open>old\<close>: the first occurrence only.\<close>

fun py_replace1 :: "string \<Rightarrow> string \<Rightarrow> string \<Rightarrow> string" where
  "py_replace1 old new [] = []"
| "py_replace1 old new (c # s) =
     (case strip_prefix old (c # s) of
        Some r \<Rightarrow> new @ r
      | None \<Rightarrow> c # py_replace1 old new s)"

text \<open>An f-string field \<open>{x}\<close> where \<open>x\<close> may be \<open>None\<close>.\<close>

fun py_format :: "string option \<Rightarrow> string" where
  "py_format None = ''None''"
| "py_format (Some s) = s"

text \<open>Truthiness of an optional string: \<open>None\<close> and the empty string are false.\<close>

fun py_truthy :: "string option \<Rightarrow> bool" where
  "py_truthy None = False"
| "py_truthy (Some s) = (s \<noteq> [])"

datatype py_error = AttributeError | TypeError

section \<open>Regular expressions as Python's \<open>re\<close> matches them\<close>

text \<open>
  The patterns of the fixer are written in the fragment below. Matching is Python's
  backtracking search: alternatives left to right, greedy repetition tries one more
  iteration before it tries to go on, lazy repetition the other way round, and the
  first success wins.
\<close>

datatype citem = CChr char | CSpace | CWord | CDigit

fun citem_mem :: "citem \<Rightarrow> char \<Rightarrow> bool" where
  "citem_mem (CChr d) c = (c = d)"
| "citem_mem CSpace c = is_space c"
| "citem_mem CWord c = is_word c"
| "citem_mem CDigit c = is_digit c"

definition cls_mem :: "citem list \<Rightarrow> char \<Rightarrow> bool" where
  "cls_mem cs c = list_ex (\<lambda>i. citem_mem i c) cs"

datatype re =
    Lit string
  | In "citem list"
  | NotIn "citem list"
  | Dot
  | Bol
  | WordB
  | Seq re re
  | Alt re re
  | Star re
  | LazyStar re
  | Plus re
  | Opt re
  | Grp nat re

text \<open>
  The matcher's state: the character before the current position (for \<open>^\<close> and \<open>\b\<close>),
  the text from the current position on, the number of characters consumed since the
  match attempt began, and the span of each group so far, counted from where the
  attempt began (\<open>None\<close> for a group that has not taken part).
\<close>

datatype mstate = MState (prev: "char option") (rest: string) (pos: nat)
  (caps: "(nat \<times> nat) option list")

definition advance :: "mstate \<Rightarrow> char \<Rightarrow> string \<Rightarrow> mstate" where
  "advance s c r = MState (Some c) r (Suc (pos s)) (caps s)"

definition at_line_start :: "mstate \<Rightarrow> bool" where
  "at_line_start s = (case prev s of None \<Rightarrow> True | Some c \<Rightarrow> c = newline)"

definition word_before :: "mstate \<Rightarrow> bool" where
  "word_before s = (case prev s of None \<Rightarrow> False | Some c \<Rightarrow> is_word c)"

definition word_after :: "mstate \<Rightarrow> bool" where
  "word_after s = (case rest s of [] \<Rightarrow> False | c # _ \<Rightarrow> is_word c)"

fun lit_state :: "mstate \<Rightarrow> string \<Rightarrow> string \<Rightarrow> mstate" where
  "lit_state s [] r = s"
| "lit_state s (c # w) r = MState (Some (last (c # w))) r (pos s + length (c # w)) (caps s)"

definition capture :: "nat \<Rightarrow> mstate \<Rightarrow> mstate \<Rightarrow> mstate" where
  "capture i s s' =
     MState (prev s') (rest s') (pos s') ((caps s')[i := Some (pos s, pos s')])"

definition advanced :: "mstate \<Rightarrow> mstate \<Rightarrow> bool" where
  "advanced s s' = (pos s < pos s')"

text \<open>
  \<open>ms r s\<close> lists the states in which a match of \<open>r\<close> from \<open>s\<close> can end, in the order in
  which the backtracking matcher reaches them; the first one that lets the rest of the
  pattern succeed is the one Python takes.

  Greedy and lazy repetition of a body \<open>f\<close>: an iteration that consumes nothing is not
  repeated, so the text that is left (the first argument) bounds the number of
  iterations.
\<close>

primrec star_all :: "string \<Rightarrow> (mstate \<Rightarrow> mstate list) \<Rightarrow> mstate \<Rightarrow> mstate list" where
  "star_all [] f s = [s]"
| "star_all (x # fuel) f s = concat (map (star_all fuel f) (filter (advanced s) (f s))) @ [s]"

primrec lazy_all :: "string \<Rightarrow> (mstate \<Rightarrow> mstate list) \<Rightarrow> mstate \<Rightarrow> mstate list" where
  "lazy_all [] f s = [s]"
| "lazy_all (x # fuel) f s = s # concat (map (lazy_all fuel f) (filter (advanced s) (f s)))"

definition star_from :: "(mstate \<Rightarrow> mstate list) \<Rightarrow> mstate \<Rightarrow> mstate list" where
  "star_from f s = star_all (rest s) f s"

primrec ms :: "re \<Rightarrow> mstate \<Rightarrow> mstate list" where
  "ms (Lit w) s =
     (case strip_prefix w (rest s) of None \<Rightarrow> [] | Some r \<Rightarrow> [lit_state s w r])"
| "ms (In cs) s =
     (case rest s of
        [] \<Rightarrow> []
      | c # r \<Rightarrow> if cls_mem cs c then [advance s c r] else [])"
| "ms (NotIn cs) s =
     (case rest s of
        [] \<Rightarrow> []
      | c # r \<Rightarrow> if cls_mem cs c then [] else [advance s c r])"
| "ms Dot s =
     (case rest s of
        [] \<Rightarrow> []
      | c # r \<Rightarrow> if c = newline then [] else [advance s c r])"
| "ms Bol s = (if at_line_start s then [s] else [])"
| "ms WordB s = (if word_before s \<noteq> word_after s then [s] else [])"
| "ms (Seq a b) s = concat (map (ms b) (ms a s))"
| "ms (Alt a b) s = ms a s @ ms b s"
| "ms (Star a) s = star_all (rest s) (ms a) s"
| "ms (LazyStar a) s = lazy_all (rest s) (ms a) s"
| "ms (Plus a) s = concat (map (star_from (ms a)) (ms a s))"
| "ms (Opt a) s = ms a s @ [s]"
| "ms (Grp i a) s = map (capture i s) (ms a s)"

primrec ngroups :: "re \<Rightarrow> nat" where
  "ngroups (Lit w) = 0"
| "ngroups (In cs) = 0"
| "ngroups (NotIn cs) = 0"
| "ngroups Dot = 0"
| "ngroups Bol = 0"
| "ngroups WordB = 0"
| "ngroups (Seq a b) = max (ngroups a) (ngroups b)"
| "ngroups (Alt a b) = max (ngroups a) (ngroups b)"
| "ngroups (Star a) = ngroups a"
| "ngroups (LazyStar a) = ngroups a"
| "ngroups (Plus a) = ngroups a"
| "ngroups (Opt a) = ngroups a"
| "ngroups (Grp i a) = max i (ngroups a)"

fun cat :: "re list \<Rightarrow> re" where
  "cat [] = Lit []"
| "cat [r] = r"
| "cat (r # rs) = Seq r (cat rs)"

subsection \<open>Match objects, search, finditer and sub\<close>

text \<open>
  A match object: its span and its groups, group 0 being the whole match. Every call
  of \<open>group\<close> in the fixer names a group that its pattern declares.
\<close>

datatype py_match = Match (m_start: nat) (m_end: nat) (m_groups: "string option list")

definition group :: "py_match \<Rightarrow> nat \<Rightarrow> string option" where
  "group mt i = (if i < length (m_groups mt) then m_groups mt ! i else None)"

fun span_text :: "string \<Rightarrow> (nat \<times> nat) option \<Rightarrow> string option" where
  "span_text txt None = None"
| "span_text txt (Some (a, b)) = Some (take (b - a) (drop a txt))"

text \<open>The match object of an attempt that began at offset \<open>p\<close>, on the text from there on.\<close>

definition mk_match :: "nat \<Rightarrow> string \<Rightarrow> mstate \<Rightarrow> py_match" where
  "mk_match p txt e =
     Match p (p + pos e) (map (span_text txt) ((caps e)[0 := Some (0, pos e)]))"

text \<open>
  A toplevel match attempt takes the first end state, except that after an empty match
  the next attempt at the same place has to advance.
\<close>

definition acceptable :: "bool \<Rightarrow> mstate \<Rightarrow> bool" where
  "acceptable adv e = (\<not> (adv \<and> pos e = 0))"

definition attempt :: "re \<Rightarrow> (nat \<times> nat) option list \<Rightarrow> bool \<Rightarrow> char option \<Rightarrow> string \<Rightarrow> mstate option" where
  "attempt r caps0 adv pv txt = find (acceptable adv) (ms r (MState pv txt 0 caps0))"

text \<open>The leftmost match at or after offset \<open>p\<close>, with the state at its end.\<close>

fun search_from :: "re \<Rightarrow> (nat \<times> nat) option list \<Rightarrow> bool \<Rightarrow> char option \<Rightarrow> nat \<Rightarrow> string \<Rightarrow> (py_match \<times> mstate) option" where
  "search_from r caps0 adv pv p [] =
     (case attempt r caps0 adv pv [] of
        Some e \<Rightarrow> Some (mk_match p [] e, e)
      | None \<Rightarrow> None)"
| "search_from r caps0 adv pv p (c # cs) =
     (case attempt r caps0 adv pv (c # cs) of
        Some e \<Rightarrow> Some (mk_match p (c # cs) e, e)
      | None \<Rightarrow> search_from r caps0 False (Some c) (Suc p) cs)"

definition no_groups :: "re \<Rightarrow> (nat \<times> nat) option list" where
  "no_groups r = replicate (Suc (ngroups r)) None"

definition re_search :: "re \<Rightarrow> string \<Rightarrow> py_match option" where
  "re_search r txt = map_option fst (search_from r (no_groups r) False None 0 txt)"

text \<open>
  The successive non-overlapping matches, as \<open>finditer\<close> and \<open>sub\<close> enumerate them:
  each search starts where the previous match ended.
\<close>

function match_iter :: "re \<Rightarrow> (nat \<times> nat) option list \<Rightarrow> bool \<Rightarrow> char option \<Rightarrow> nat \<Rightarrow> string \<Rightarrow> py_match list" where
  "match_iter r caps0 adv pv p txt =
     (case search_from r caps0 adv pv p txt of
        None \<Rightarrow> []
      | Some (mt, e) \<Rightarrow>
          if length (rest e) < length txt
          then mt # match_iter r caps0 (m_end mt = m_start mt) (prev e) (m_end mt) (rest e)
          else if \<not> adv then mt # match_iter r caps0 True pv p txt
          else [mt])"
  by pat_completeness auto
termination
  by (relation "measures [\<lambda>(r, caps0, adv, pv, p, txt). length txt,
                          \<lambda>(r, caps0, adv, pv, p, txt). if adv then 0 else 1]") auto

definition finditer :: "re \<Rightarrow> string \<Rightarrow> py_match list" where
  "finditer r txt = match_iter r (no_groups r) False None 0 txt"

text \<open>
  \<open>sub\<close> walks the matches left to right, copying the text before each match and the
  result of the callback in its place, and at the end the text after the last match.
  An exception of the callback ends the call.
\<close>

fun splice :: "string \<Rightarrow> nat \<Rightarrow> (py_match \<Rightarrow> py_error + string) \<Rightarrow> py_match list \<Rightarrow> py_error + string" where
  "splice txt i repl [] = Inr (drop i txt)"
| "splice txt i repl (mt # mts) =
     (case repl mt of
        Inl err \<Rightarrow> Inl err
      | Inr new \<Rightarrow>
          (case splice txt (m_end mt) repl mts of
             Inl err \<Rightarrow> Inl err
           | Inr out \<Rightarrow> Inr (take (m_start mt - i) (drop i txt) @ new @ out)))"

text \<open>\<open>count = 0\<close> replaces every match, as in Python.\<close>

definition re_sub :: "re \<Rightarrow> (py_match \<Rightarrow> py_error + string) \<Rightarrow> string \<Rightarrow> nat \<Rightarrow> py_error + string" where
  "re_sub r repl txt count =
     splice txt 0 repl (if count = 0 then finditer r txt else take count (finditer r txt))"

section \<open>The fixer\<close>

text \<open>Statements run in sequence; the first exception ends the run.\<close>

fun chain :: "('a \<Rightarrow> py_error + 'a) list \<Rightarrow> 'a \<Rightarrow> py_error + 'a" where
  "chain [] x = Inr x"
| "chain (f # fs) x = (case f x of Inl err \<Rightarrow> Inl err | Inr y \<Rightarrow> chain fs y)"

subsection \<open>Installation comment\<close>

definition banner :: string where
  "banner = ''# Make sure to install qiskit-aer first:'' @ [newline]
          @ ''# pip install qiskit-aer'' @ [newline, newline]"

definition add_banner :: "string \<Rightarrow> string" where
  "add_banner code =
     (if py_in ''qiskit'' code \<and> \<not> py_in ''pip install qiskit-aer'' code
      then banner @ code else code)"

subsection \<open>Import rules\<close>

definition spaces1 :: re where
  "spaces1 = Plus (In [CSpace])"

definition spaces0 :: re where
  "spaces0 = Star (In [CSpace])"

definition not_semi_nl :: re where
  "not_semi_nl = Star (NotIn [CChr CHR '';'', CChr newline])"

text \<open>\<open>from\s+qiskit\s+import\s+([^;\n]*\bSYM\b[^;\n]*)\<close>\<close>

definition import_pattern :: "string \<Rightarrow> re" where
  "import_pattern symb =
     cat [Lit ''from'', spaces1, Lit ''qiskit'', spaces1, Lit ''import'', spaces1,
          Grp 1 (cat [not_semi_nl, WordB, Lit symb, WordB, not_semi_nl])]"

definition aer_import_pattern :: re where
  "aer_import_pattern = import_pattern ''Aer''"

definition basicaer_import_pattern :: re where
  "basicaer_import_pattern = import_pattern ''BasicAer''"

definition execute_import_pattern :: re where
  "execute_import_pattern = import_pattern ''execute''"

definition import_items :: "string \<Rightarrow> string list" where
  "import_items imports = map py_strip (py_split CHR '','' imports)"

definition fix_aer_import :: "py_match \<Rightarrow> py_error + string" where
  "fix_aer_import mt =
     (case group mt 1 of
        None \<Rightarrow> Inl AttributeError
      | Some imports \<Rightarrow>
          (let other_imports = filter (\<lambda>item. item \<noteq> ''Aer'') (import_items imports)
           in if other_imports \<noteq> []
              then Inr (''from qiskit import '' @ py_join '', '' other_imports @ [newline]
                        @ ''from qiskit_aer import Aer'')
              else Inr ''from qiskit_aer import Aer''))"

definition fix_basicaer_import :: "py_match \<Rightarrow> py_error + string" where
  "fix_basicaer_import mt =
     (case group mt 1 of
        None \<Rightarrow> Inl AttributeError
      | Some imports \<Rightarrow>
          (let other_imports = filter (\<lambda>item. item \<noteq> ''BasicAer'') (import_items imports);
               result = (if other_imports \<noteq> []
                         then ''from qiskit import '' @ py_join '', '' other_imports @ [newline]
                         else [])
           in Inr (result @ ''from qiskit.providers.basic_provider import BasicProvider'')))"

definition fix_execute_import :: "py_match \<Rightarrow> py_error + string" where
  "fix_execute_import mt =
     (case group mt 1 of
        None \<Rightarrow> Inl AttributeError
      | Some imports \<Rightarrow>
          (let other_imports = filter (\<lambda>item. item \<noteq> ''execute'') (import_items imports);
               has_transpile = (''transpile'' \<in> set other_imports);
               other_imports' = (if \<not> has_transpile then other_imports @ [''transpile'']
                                 else other_imports)
           in Inr (''from qiskit import '' @ py_join '', '' other_imports')))"

definition rule_a :: "string \<Rightarrow> py_error + string" where
  "rule_a code = re_sub aer_import_pattern fix_aer_import code 0"

definition rule_b :: "string \<Rightarrow> py_error + string" where
  "rule_b code = re_sub basicaer_import_pattern fix_basicaer_import code 0"

definition rule_c :: "string \<Rightarrow> py_error + string" where
  "rule_c code = re_sub execute_import_pattern fix_execute_import code 0"

subsection \<open>Simulator names\<close>

definition quote :: re where
  "quote = In [CChr squote, CChr dquote]"

text \<open>\<open>BasicAer\.get_backend\(['"]qasm_simulator['"]\)\<close> and the same with \<open>Aer\<close>\<close>

definition basicaer_qasm_pattern :: re where
  "basicaer_qasm_pattern = cat [Lit ''BasicAer.get_backend('', quote, Lit ''qasm_simulator'', quote, Lit '')'']"

definition aer_qasm_pattern :: re where
  "aer_qasm_pattern = cat [Lit ''Aer.get_backend('', quote, Lit ''qasm_simulator'', quote, Lit '')'']"

definition basic_simulator_call :: string where
  "basic_simulator_call = ''BasicProvider().get_backend('' @ [dquote] @ ''basic_simulator'' @ [dquote] @ '')''"

definition fix_basicaer_qasm :: "string \<Rightarrow> py_error + string" where
  "fix_basicaer_qasm code = re_sub basicaer_qasm_pattern (\<lambda>mt. Inr basic_simulator_call) code 0"

definition fix_aer_qasm :: "string \<Rightarrow> py_error + string" where
  "fix_aer_qasm code =
     (if py_in ''BasicProvider'' code
      then re_sub aer_qasm_pattern (\<lambda>mt. Inr basic_simulator_call) code 0
      else Inr code)"

subsection \<open>The \<open>execute\<close> call\<close>

definition ident :: re where
  "ident = Plus (In [CWord, CChr CHR ''_''])"

text \<open>
  \<open>([\w_]+)\s*=\s*execute\(\s*([\w_]+)\s*,\s*(?:Aer\.get_backend\(\s*['"]([\w_]+)['"]\s*\)|(\w+))\s*(?:,\s*shots\s*=\s*(\d+))?\s*\)\<close>
\<close>

definition call_head :: "re list" where
  "call_head =
     [Grp 1 ident, spaces0, Lit ''='', spaces0, Lit ''execute('', spaces0,
      Grp 2 ident, spaces0, Lit '','', spaces0]"

definition backend_expr :: re where
  "backend_expr =
     Alt (cat [Lit ''Aer.get_backend('', spaces0, quote, Grp 3 ident, quote, spaces0, Lit '')''])
         (Grp 4 (Plus (In [CWord])))"

definition call_tail :: "re list" where
  "call_tail =
     [spaces0,
      Opt (cat [Lit '','', spaces0, Lit ''shots'', spaces0, Lit ''='', spaces0,
                Grp 5 (Plus (In [CDigit]))]),
      spaces0, Lit '')'']"

definition execute_pattern :: re where
  "execute_pattern = cat (call_head @ [backend_expr] @ call_tail)"

text \<open>\<open>from\s+qiskit\s+import\s+\<close>\<close>

definition qiskit_import_prefix :: re where
  "qiskit_import_prefix = cat [Lit ''from'', spaces1, Lit ''qiskit'', spaces1, Lit ''import'', spaces1]"

definition not_comma_nl :: re where
  "not_comma_nl = Star (NotIn [CChr CHR '','', CChr newline])"

text \<open>\<open>from\s+qiskit\s+import\s+([^,\n]*(?:,\s*[^,\n]*)*)\<close>\<close>

definition qiskit_import_list :: re where
  "qiskit_import_list =
     cat [Lit ''from'', spaces1, Lit ''qiskit'', spaces1, Lit ''import'', spaces1,
          Grp 1 (cat [not_comma_nl, Star (cat [Lit '','', spaces0, not_comma_nl])])]"

definition add_transpile :: "py_match \<Rightarrow> py_error + string" where
  "add_transpile mt =
     (case group mt 1 of
        None \<Rightarrow> Inl TypeError
      | Some g1 \<Rightarrow>
          if \<not> py_in ''transpile'' g1
          then Inr (''from qiskit import '' @ g1 @ '', transpile'')
          else Inr (py_format (group mt 0)))"

text \<open>\<open>^#.*?\n\<close> and \<open>^(?:from|import).*?\n\<close>, both with \<open>MULTILINE\<close>\<close>

definition comment_line :: re where
  "comment_line = cat [Bol, Lit ''#'', LazyStar Dot, Lit [newline]]"

definition import_line :: re where
  "import_line = cat [Bol, Alt (Lit ''from'') (Lit ''import''), LazyStar Dot, Lit [newline]]"

definition transpile_import_line :: string where
  "transpile_import_line = ''from qiskit import transpile'' @ [newline]"

definition import_pos :: "string \<Rightarrow> nat" where
  "import_pos code = foldl (\<lambda>p mt. m_end mt) 0 (finditer comment_line code)"

definition imports_end :: "string \<Rightarrow> nat" where
  "imports_end code =
     foldl (\<lambda>e mt. if m_start mt \<ge> import_pos code then m_end mt else e)
       (import_pos code) (finditer import_line code)"

definition insert_transpile_import :: "string \<Rightarrow> string" where
  "insert_transpile_import code =
     take (imports_end code) code @ transpile_import_line @ drop (imports_end code) code"

definition ensure_transpile_import :: "string \<Rightarrow> py_error + string" where
  "ensure_transpile_import code =
     (if re_search execute_pattern code \<noteq> None
         \<and> \<not> py_in ''from qiskit import transpile'' code
         \<and> \<not> py_in ''import qiskit.transpile'' code
      then (if re_search qiskit_import_prefix code \<noteq> None
            then re_sub qiskit_import_list add_transpile code 1
            else Inr (insert_transpile_import code))
      else Inr code)"

definition replacement :: "py_match \<Rightarrow> string" where
  "replacement mt =
     (let result_var = group mt 1;
          circuit_var = group mt 2;
          backend_name = group mt 3;
          backend_var = group mt 4;
          shots = group mt 5
      in py_format circuit_var @ ''_transpiled = transpile('' @ py_format circuit_var @ '')'' @ [newline]
         @ (if py_truthy backend_var
            then py_format result_var @ '' = '' @ py_format backend_var @ ''.run(''
                 @ py_format circuit_var @ ''_transpiled''
            else ''simulator = Aer.get_backend('' @ [squote] @ py_format backend_name @ [squote]
                 @ '')'' @ [newline]
                 @ py_format result_var @ '' = simulator.run('' @ py_format circuit_var
                 @ ''_transpiled'')
         @ (if py_truthy shots then '', shots='' @ py_format shots else [])
         @ '')'')"

definition replace_span :: "string \<Rightarrow> py_match \<Rightarrow> string" where
  "replace_span code mt = take (m_start mt) code @ replacement mt @ drop (m_end mt) code"

definition rewrite_calls :: "string \<Rightarrow> string" where
  "rewrite_calls code = foldl replace_span code (rev (finditer execute_pattern code))"

definition rewrite_calls_stage :: "string \<Rightarrow> py_error + string" where
  "rewrite_calls_stage code = Inr (rewrite_calls code)"

subsection \<open>Duplicate imports\<close>

text \<open>
  \<open>from qiskit import ([^,\n]*,\s*)*transpile(,\s*[^,\n]*)*,\s*transpile(,\s*[^,\n]*)*\<close>
\<close>

definition double_transpile :: re where
  "double_transpile =
     cat [Lit ''from qiskit import '',
          Star (Grp 1 (cat [not_comma_nl, Lit '','', spaces0])),
          Lit ''transpile'',
          Star (Grp 2 (cat [Lit '','', spaces0, not_comma_nl])),
          Lit '','', spaces0, Lit ''transpile'',
          Star (Grp 3 (cat [Lit '','', spaces0, not_comma_nl]))]"

definition drop_second_transpile :: "py_match \<Rightarrow> py_error + string" where
  "drop_second_transpile mt =
     (case group mt 0 of
        None \<Rightarrow> Inl AttributeError
      | Some g0 \<Rightarrow> Inr (py_replace1 '', transpile'' [] g0))"

text \<open>\<open>(?:from qiskit import transpile\n)+\<close>\<close>

definition repeated_import_line :: re where
  "repeated_import_line = Plus (Lit transpile_import_line)"

definition dedup_in_list :: "string \<Rightarrow> py_error + string" where
  "dedup_in_list code = re_sub double_transpile drop_second_transpile code 0"

definition collapse_import_lines :: "string \<Rightarrow> py_error + string" where
  "collapse_import_lines code =
     re_sub repeated_import_line (\<lambda>mt. Inr transpile_import_line) code 0"

subsection \<open>The driver\<close>

definition fix_qiskit_code :: "string \<Rightarrow> py_error + string" where
  "fix_qiskit_code code =
     chain [rule_a, rule_b, rule_c, fix_basicaer_qasm, fix_aer_qasm, ensure_transpile_import,
            rewrite_calls_stage, dedup_in_list, collapse_import_lines]
       (add_banner code)"

section \<open>Vocabulary of the properties\<close>

text \<open>
  A state \<open>s'\<close> follows \<open>s\<close> when the matcher can get from \<open>s\<close> to \<open>s'\<close> by consuming
  text: what is left at \<open>s'\<close> is a suffix of what is left at \<open>s\<close>, and the offset has
  grown by what was consumed.
\<close>

definition follows :: "mstate \<Rightarrow> mstate \<Rightarrow> bool" where
  "follows s s' = (\<exists>w. rest s = w @ rest s' \<and> pos s' = pos s + length w
                       \<and> length (caps s') = length (caps s))"

text \<open>Spans that lie between \<open>lo\<close> and \<open>hi\<close>, in increasing order, without overlap.\<close>

fun sorted_spans :: "nat \<Rightarrow> nat \<Rightarrow> py_match list \<Rightarrow> bool" where
  "sorted_spans lo hi [] = True"
| "sorted_spans lo hi (mt # mts) =
     (lo \<le> m_start mt \<and> m_start mt \<le> m_end mt \<and> m_end mt \<le> hi \<and> sorted_spans (m_end mt) hi mts)"

text \<open>
  The buffer rebuilt from left to right: the text before the first call site, its
  replacement, the text up to the next call site, and so on, and at the end the text
  after the last call site.
\<close>

fun rebuild :: "string \<Rightarrow> nat \<Rightarrow> py_match list \<Rightarrow> string" where
  "rebuild code i [] = drop i code"
| "rebuild code i (mt # mts) =
     take (m_start mt - i) (drop i code) @ replacement mt @ rebuild code (m_end mt) mts"

text \<open>
  Bookkeeping on patterns: the groups a pattern mentions, whether every match of it sets
  group \<open>i\<close>, whether every match of it consumes text, and whether each of its groups
  encloses something that consumes text.
\<close>

primrec grps :: "re \<Rightarrow> nat set" where
  "grps (Lit w) = {}"
| "grps (In cs) = {}"
| "grps (NotIn cs) = {}"
| "grps Dot = {}"
| "grps Bol = {}"
| "grps WordB = {}"
| "grps (Seq a b) = grps a \<union> grps b"
| "grps (Alt a b) = grps a \<union> grps b"
| "grps (Star a) = grps a"
| "grps (LazyStar a) = grps a"
| "grps (Plus a) = grps a"
| "grps (Opt a) = grps a"
| "grps (Grp i a) = insert i (grps a)"

primrec sets_group :: "re \<Rightarrow> nat \<Rightarrow> bool" where
  "sets_group (Lit w) i = False"
| "sets_group (In cs) i = False"
| "sets_group (NotIn cs) i = False"
| "sets_group Dot i = False"
| "sets_group Bol i = False"
| "sets_group WordB i = False"
| "sets_group (Seq a b) i = (sets_group a i \<or> sets_group b i)"
| "sets_group (Alt a b) i = (sets_group a i \<and> sets_group b i)"
| "sets_group (Star a) i = False"
| "sets_group (LazyStar a) i = False"
| "sets_group (Plus a) i = sets_group a i"
| "sets_group (Opt a) i = False"
| "sets_group (Grp j a) i = (j = i \<or> sets_group a i)"

primrec consumes :: "re \<Rightarrow> bool" where
  "consumes (Lit w) = (w \<noteq> [])"
| "consumes (In cs) = True"
| "consumes (NotIn cs) = True"
| "consumes Dot = True"
| "consumes Bol = False"
| "consumes WordB = False"
| "consumes (Seq a b) = (consumes a \<or> consumes b)"
| "consumes (Alt a b) = (consumes a \<and> consumes b)"
| "consumes (Star a) = False"
| "consumes (LazyStar a) = False"
| "consumes (Plus a) = consumes a"
| "consumes (Opt a) = False"
| "consumes (Grp i a) = consumes a"

primrec groups_consume :: "re \<Rightarrow> bool" where
  "groups_consume (Lit w) = True"
| "groups_consume (In cs) = True"
| "groups_consume (NotIn cs) = True"
| "groups_consume Dot = True"
| "groups_consume Bol = True"
| "groups_consume WordB = True"
| "groups_consume (Seq a b) = (groups_consume a \<and> groups_consume b)"
| "groups_consume (Alt a b) = (groups_consume a \<and> groups_consume b)"
| "groups_consume (Star a) = groups_consume a"
| "groups_consume (LazyStar a) = groups_consume a"
| "groups_consume (Plus a) = groups_consume a"
| "groups_consume (Opt a) = groups_consume a"
| "groups_consume (Grp i a) = (consumes a \<and> groups_consume a)"

text \<open>Every span recorded so far is non-empty and ends at or before the current offset.\<close>

definition spans_ok :: "mstate \<Rightarrow> bool" where
  "spans_ok s = (\<forall>i a b. i < length (caps s) \<and> caps s ! i = Some (a, b) \<longrightarrow> a < b \<and> b \<le> pos s)"

text \<open>The trailing argument of the run call: present exactly when a shot count was captured.\<close>

fun shots_arg :: "string option \<Rightarrow> string" where
  "shots_arg None = []"
| "shots_arg (Some n) = '', shots='' @ n"

text \<open>
  The number of statements \<open>from qiskit import ...\<close> of a buffer, one per line, that name
  the symbol \<open>transpile\<close> in their list.
\<close>

definition transpile_imports :: "string \<Rightarrow> nat" where
  "transpile_imports code =
     length (filter (\<lambda>line. case strip_prefix ''from qiskit import '' line of
                               None \<Rightarrow> False
                             | Some names \<Rightarrow> ''transpile'' \<in> set (import_items names))
                    (py_split newline code))"

text \<open>
  An entry of an import list: white space, a name, white space. The name holds no comma
  and neither begins nor ends with white space; the text of the entry is the three
  parts in a row.
\<close>

definition padded :: "string \<times> string \<times> string \<Rightarrow> string" where
  "padded e = (case e of (l, s, r) \<Rightarrow> l @ s @ r)"

definition entry_name :: "string \<times> string \<times> string \<Rightarrow> string" where
  "entry_name e = (case e of (l, s, r) \<Rightarrow> s)"

definition import_entry :: "string \<times> string \<times> string \<Rightarrow> bool" where
  "import_entry e = (case e of (l, s, r) \<Rightarrow>
     list_all is_space l \<and> list_all is_space r \<and> CHR '','' \<notin> set s
     \<and> (s = [] \<or> (\<not> is_space (hd s) \<and> \<not> is_space (last s))))"

text \<open>
  A buffer in which every run of consecutive copies of \<open>w\<close> is cut down to one copy: of
  two copies in a row the first is dropped.
\<close>

function squeeze :: "string \<Rightarrow> string \<Rightarrow> string" where
  "squeeze w [] = []"
| "squeeze w (c # s) =
     (if w \<noteq> [] \<and> take (length w) (c # s) = w
      then (if take (length w) (drop (length w) (c # s)) = w
            then squeeze w (drop (length w) (c # s))
            else w @ squeeze w (drop (length w) (c # s)))
      else c # squeeze w s)"
  by pat_completeness auto
termination
  by (relation "measure (\<lambda>(w, t). length t)") auto

text \<open>The number of offsets of \<open>s\<close> at which \<open>w\<close> begins.\<close>

fun occurrences :: "string \<Rightarrow> string \<Rightarrow> nat" where
  "occurrences w [] = 0"
| "occurrences w (c # s) = (if strip_prefix w (c # s) \<noteq> None then 1 else 0) + occurrences w s"

section \<open>Evaluating the character classes\<close>

text \<open>
  The classes are intervals of code points; on a character given by its bits they are
  decided without arithmetic.
\<close>

lemma is_space_bits [code]:
  "is_space (Char b0 b1 b2 b3 b4 b5 b6 b7) =
     (if b7 then (\<not> b6 \<and> (if b5 then (\<not> b4 \<and> (\<not> b3 \<and> (\<not> b2 \<and> (\<not> b1 \<and> \<not> b0)))) else (\<not> b4 \<and> (\<not> b3 \<and> (b2 \<and> (\<not> b1 \<and> b0))))))
      else (\<not> b6 \<and> (if b5 then (\<not> b4 \<and> (\<not> b3 \<and> (\<not> b2 \<and> (\<not> b1 \<and> \<not> b0))))
                      else (if b4 then (b3 \<and> b2) else (b3 \<and> (if b2 then \<not> b1 else (b1 \<or> b0)))))))"
  unfolding is_space_def
  by (cases b0; cases b1; cases b2; cases b3; cases b4; cases b5; cases b6; cases b7; simp)

lemma is_digit_bits [code]:
  "is_digit (Char b0 b1 b2 b3 b4 b5 b6 b7) =
     (\<not> b7 \<and> (\<not> b6 \<and> (b5 \<and> (b4 \<and> (\<not> b3 \<or> (\<not> b2 \<and> \<not> b1))))))"
  unfolding is_digit_def
  by (cases b0; cases b1; cases b2; cases b3; cases b4; cases b5; cases b6; cases b7; simp)

lemma is_word_bits [code]:
  "is_word (Char b0 b1 b2 b3 b4 b5 b6 b7) =
     (if b7 then (if b6 then (if b5 then (\<not> b4 \<or> (b3 \<or> (\<not> b2 \<or> (\<not> b1 \<or> \<not> b0)))) else (\<not> b4 \<or> (b3 \<or> (\<not> b2 \<or> (\<not> b1 \<or> \<not> b0)))))
                 else (b5 \<and> (if b4 then (if b3 then (if b2 then (\<not> b1 \<or> \<not> b0) else (if b1 then \<not> b0 else b0)) else (if b2 then (\<not> b1 \<and> b0) else b1))
                              else (b3 \<and> (\<not> b2 \<and> (b1 \<and> \<not> b0))))))
      else (if b6 then (if b5 then (if b4 then (\<not> b3 \<or> (\<not> b2 \<and> (\<not> b1 \<or> \<not> b0))) else (b3 \<or> (b2 \<or> (b1 \<or> b0))))
                       else (if b4 then (\<not> b3 \<or> (if b2 then (b1 \<and> b0) else (\<not> b1 \<or> \<not> b0))) else (b3 \<or> (b2 \<or> (b1 \<or> b0)))))
            else (b5 \<and> (b4 \<and> (\<not> b3 \<or> (\<not> b2 \<and> \<not> b1))))))"
  unfolding is_word_def
  by (cases b0; cases b1; cases b2; cases b3; cases b4; cases b5; cases b6; cases b7; simp)

section \<open>Properties of the matcher\<close>

lemma follows_refl: "follows s s"
  by (simp add: follows_def)

lemma follows_trans: "follows a b \<Longrightarrow> follows b c \<Longrightarrow> follows a c"
  unfolding follows_def by (metis (no_types, lifting) add.assoc append.assoc length_append)

lemma strip_prefix_Some: "strip_prefix w s = Some r \<Longrightarrow> s = w @ r"
  by (induction w s rule: strip_prefix.induct) (auto split: if_splits)

lemma strip_prefix_append: "strip_prefix w (w @ r) = Some r"
  by (induction w) auto

lemma follows_advance: "rest s = c # r \<Longrightarrow> follows s (advance s c r)"
  unfolding follows_def advance_def by (rule exI[of _ "[c]"]) simp

lemma follows_lit: "strip_prefix w (rest s) = Some r \<Longrightarrow> follows s (lit_state s w r)"
  unfolding follows_def
  by (cases w) (auto dest!: strip_prefix_Some intro: exI[of _ "[]"])

lemma follows_capture: "follows s s' \<Longrightarrow> follows s (capture i s0 s')"
  unfolding follows_def capture_def by auto

lemma star_all_follows:
  assumes f: "\<And>a b. b \<in> set (f a) \<Longrightarrow> follows a b"
  shows "s' \<in> set (star_all fuel f s) \<Longrightarrow> follows s s'"
proof (induction fuel arbitrary: s)
  case Nil
  then show ?case by (simp add: follows_refl)
next
  case (Cons x fuel)
  then show ?case
    by (auto simp: follows_refl intro: follows_trans f)
qed

lemma lazy_all_follows:
  assumes f: "\<And>a b. b \<in> set (f a) \<Longrightarrow> follows a b"
  shows "s' \<in> set (lazy_all fuel f s) \<Longrightarrow> follows s s'"
proof (induction fuel arbitrary: s)
  case Nil
  then show ?case by (simp add: follows_refl)
next
  case (Cons x fuel)
  then show ?case
    by (auto simp: follows_refl intro: follows_trans f)
qed

lemma ms_follows: "s' \<in> set (ms r s) \<Longrightarrow> follows s s'"
proof (induction r arbitrary: s s')
  case (Lit w)
  then show ?case by (auto split: option.splits intro: follows_lit)
next
  case (In cs)
  then show ?case by (auto split: list.splits if_splits intro: follows_advance)
next
  case (NotIn cs)
  then show ?case by (auto split: list.splits if_splits intro: follows_advance)
next
  case Dot
  then show ?case by (auto split: list.splits if_splits intro: follows_advance)
next
  case Bol
  then show ?case by (auto split: if_splits simp: follows_refl)
next
  case WordB
  then show ?case by (auto split: if_splits simp: follows_refl)
next
  case (Seq a b)
  then show ?case by auto (meson follows_trans)
next
  case (Alt a b)
  then show ?case by auto
next
  case (Star a)
  then show ?case by (auto intro: star_all_follows)
next
  case (LazyStar a)
  then show ?case by (auto intro: lazy_all_follows)
next
  case (Plus a)
  from Plus.prems obtain x where x: "x \<in> set (ms a s)" "s' \<in> set (star_all (rest x) (ms a) x)"
    by (auto simp: star_from_def)
  have "follows s x" using Plus.IH x(1) by blast
  moreover have "follows x s'" using star_all_follows[of "ms a"] Plus.IH x(2) by blast
  ultimately show ?case by (rule follows_trans)
next
  case (Opt a)
  then show ?case by (auto simp: follows_refl)
next
  case (Grp i a)
  then show ?case by (auto intro: follows_capture)
qed

lemma attempt_Some:
  assumes "attempt r caps0 adv pv txt = Some e"
  shows "follows (MState pv txt 0 caps0) e" and "adv \<Longrightarrow> 0 < pos e"
proof -
  from assms have "e \<in> set (ms r (MState pv txt 0 caps0))" and acc: "acceptable adv e"
    by (auto simp: attempt_def find_Some_iff)
  then show "follows (MState pv txt 0 caps0) e" by (simp add: ms_follows)
  show "adv \<Longrightarrow> 0 < pos e" using acc by (simp add: acceptable_def)
qed

lemma attempt_rest:
  assumes "attempt r caps0 adv pv txt = Some e"
  shows "rest e = drop (pos e) txt" and "pos e \<le> length txt"
  using attempt_Some(1)[OF assms] by (auto simp: follows_def)

lemma search_from_Some:
  "search_from r caps0 adv pv p txt = Some (mt, e) \<Longrightarrow>
     p \<le> m_start mt \<and> m_end mt = m_start mt + pos e \<and> m_end mt \<le> p + length txt
     \<and> rest e = drop (m_end mt - p) txt \<and> (adv \<longrightarrow> p < m_end mt)"
proof (induction "txt" arbitrary: adv pv p)
  case Nil
  then show ?case
    by (auto simp: mk_match_def split: option.splits dest: attempt_rest attempt_Some(2))
next
  case (Cons c cs)
  show ?case
  proof (cases "attempt r caps0 adv pv (c # cs)")
    case None
    with Cons.prems have "search_from r caps0 False (Some c) (Suc p) cs = Some (mt, e)" by simp
    from Cons.IH[OF this] have ih: "Suc p \<le> m_start mt" "m_end mt = m_start mt + pos e"
      "m_end mt \<le> Suc p + length cs" "rest e = drop (m_end mt - Suc p) cs" by auto
    then have "m_end mt - p = Suc (m_end mt - Suc p)" by arith
    with ih show ?thesis by auto
  next
    case (Some e')
    with Cons.prems have mt: "mt = mk_match p (c # cs) e'" and e: "e = e'" by auto
    from attempt_rest[OF Some] attempt_Some(2)[OF Some] show ?thesis
      by (auto simp: mt e mk_match_def)
  qed
qed

declare match_iter.simps [simp del]

lemma match_iter_sorted: "sorted_spans p (p + length txt) (match_iter r caps0 adv pv p txt)"
proof (induction r caps0 adv pv p "txt" rule: match_iter.induct)
  case (1 r caps0 adv pv p t)
  show ?case
  proof (cases "search_from r caps0 adv pv p t")
    case None
    then show ?thesis by (subst match_iter.simps) simp
  next
    case (Some x)
    obtain mt e where x: "x = (mt, e)" by (cases x)
    note s = search_from_Some[OF Some[unfolded x]]
    show ?thesis
    proof (cases "length (rest e) < length t")
      case True
      have len: "m_end mt + length (rest e) = p + length t" using s by auto
      from "1.IH"(1)[OF Some x[symmetric] True] len
      have "sorted_spans (m_end mt) (p + length t)
              (match_iter r caps0 (m_end mt = m_start mt) (prev e) (m_end mt) (rest e))" by simp
      with s True show ?thesis
        by (subst match_iter.simps) (simp add: Some x)
    next
      case False
      with s have e: "m_end mt = p" "m_start mt = p" by auto
      show ?thesis
      proof (cases adv)
        case True
        with s e show ?thesis by simp
      next
        case nadv: False
        from "1.IH"(2)[OF Some x[symmetric] False] nadv
        have "sorted_spans p (p + length t) (match_iter r caps0 True pv p t)" by simp
        with False nadv e Some x show ?thesis
          by (subst match_iter.simps) simp
      qed
    qed
  qed
qed

lemma finditer_sorted: "sorted_spans 0 (length txt) (finditer r txt)"
  using match_iter_sorted[of 0 "txt" r "no_groups r" False None] by (simp add: finditer_def)

lemma foldl_replace_span:
  "sorted_spans i (length code) mts \<Longrightarrow>
     foldl replace_span code (rev mts) = take i code @ rebuild code i mts"
proof (induction mts arbitrary: i)
  case Nil
  then show ?case by simp
next
  case (Cons mt mts)
  from Cons.prems have b: "i \<le> m_start mt" "m_start mt \<le> m_end mt" "m_end mt \<le> length code"
    and rest: "sorted_spans (m_end mt) (length code) mts" by auto
  have "foldl replace_span code (rev (mt # mts))
        = replace_span (take (m_end mt) code @ rebuild code (m_end mt) mts) mt"
    by (simp add: Cons.IH[OF rest])
  also have "\<dots> = take (m_start mt) code @ replacement mt @ rebuild code (m_end mt) mts"
    using b by (simp add: replace_span_def min_def)
  also have "take (m_start mt) code = take i code @ take (m_start mt - i) (drop i code)"
    using b by (metis le_add_diff_inverse take_add)
  finally show ?case by simp
qed

subsection \<open>What a match records in its groups\<close>

lemma star_all_rel:
  assumes f: "\<And>a b. b \<in> set (f a) \<Longrightarrow> R a b" and refl: "\<And>a. R a a"
    and trans: "\<And>a b c. R a b \<Longrightarrow> R b c \<Longrightarrow> R a c"
  shows "s' \<in> set (star_all fuel f s) \<Longrightarrow> R s s'"
proof (induction fuel arbitrary: s)
  case Nil
  then show ?case by (simp add: refl)
next
  case (Cons x fuel)
  from Cons.prems consider "s' = s"
    | y where "y \<in> set (f s)" "s' \<in> set (star_all fuel f y)" by auto
  then show ?case
  proof cases
    case 1
    then show ?thesis by (simp add: refl)
  next
    case 2
    then show ?thesis using Cons.IH f trans by blast
  qed
qed

lemma lazy_all_rel:
  assumes f: "\<And>a b. b \<in> set (f a) \<Longrightarrow> R a b" and refl: "\<And>a. R a a"
    and trans: "\<And>a b c. R a b \<Longrightarrow> R b c \<Longrightarrow> R a c"
  shows "s' \<in> set (lazy_all fuel f s) \<Longrightarrow> R s s'"
proof (induction fuel arbitrary: s)
  case Nil
  then show ?case by (simp add: refl)
next
  case (Cons x fuel)
  from Cons.prems consider "s' = s"
    | y where "y \<in> set (f s)" "s' \<in> set (lazy_all fuel f y)" by auto
  then show ?case
  proof cases
    case 1
    then show ?thesis by (simp add: refl)
  next
    case 2
    then show ?thesis using Cons.IH f trans by blast
  qed
qed

lemma ms_atom_caps:
  "s' \<in> set (ms (Lit w) s) \<Longrightarrow> caps s' = caps s"
  "s' \<in> set (ms (In cs) s) \<Longrightarrow> caps s' = caps s"
  "s' \<in> set (ms (NotIn cs) s) \<Longrightarrow> caps s' = caps s"
  "s' \<in> set (ms Dot s) \<Longrightarrow> caps s' = caps s"
  "s' \<in> set (ms Bol s) \<Longrightarrow> caps s' = caps s"
  "s' \<in> set (ms WordB s) \<Longrightarrow> caps s' = caps s"
  by (cases w; auto simp: advance_def split: option.splits list.splits if_splits)+

lemma ms_keeps: "s' \<in> set (ms r s) \<Longrightarrow> i \<notin> grps r \<Longrightarrow> caps s' ! i = caps s ! i"
proof (induction r arbitrary: s s')
  case (Lit w)
  from ms_atom_caps(1)[OF Lit(1)] show ?case by simp
next
  case (In cs)
  from ms_atom_caps(2)[OF In(1)] show ?case by simp
next
  case (NotIn cs)
  from ms_atom_caps(3)[OF NotIn(1)] show ?case by simp
next
  case Dot
  from ms_atom_caps(4)[OF Dot(1)] show ?case by simp
next
  case Bol
  from ms_atom_caps(5)[OF Bol(1)] show ?case by simp
next
  case WordB
  from ms_atom_caps(6)[OF WordB(1)] show ?case by simp
next
  case (Seq a b)
  then obtain x where "x \<in> set (ms a s)" "s' \<in> set (ms b x)" by auto
  with Seq show ?case by (metis UnCI grps.simps(7))
next
  case (Alt a b)
  then show ?case by auto
next
  case (Star a)
  have "caps s' ! i = caps s ! i"
    by (rule star_all_rel[where R = "\<lambda>a b. caps b ! i = caps a ! i" and f = "ms a"])
       (use Star in auto)
  then show ?case .
next
  case (LazyStar a)
  have "caps s' ! i = caps s ! i"
    by (rule lazy_all_rel[where R = "\<lambda>a b. caps b ! i = caps a ! i" and f = "ms a"])
       (use LazyStar in auto)
  then show ?case .
next
  case (Plus a)
  from Plus.prems obtain x where x: "x \<in> set (ms a s)" "s' \<in> set (star_all (rest x) (ms a) x)"
    by (auto simp: star_from_def)
  have "caps s' ! i = caps x ! i"
    by (rule star_all_rel[where R = "\<lambda>a b. caps b ! i = caps a ! i" and f = "ms a"])
       (use Plus x in auto)
  with Plus x show ?case by auto
next
  case (Opt a)
  then show ?case by auto
next
  case (Grp j a)
  then show ?case by (auto simp: capture_def)
qed

lemma follows_pos: "follows s s' \<Longrightarrow> pos s \<le> pos s'"
  by (auto simp: follows_def)

lemma follows_caps_length: "follows s s' \<Longrightarrow> length (caps s') = length (caps s)"
  by (auto simp: follows_def)

lemma ms_stays_set:
  "s' \<in> set (ms r s) \<Longrightarrow> i < length (caps s) \<Longrightarrow> caps s ! i \<noteq> None \<Longrightarrow> caps s' ! i \<noteq> None"
proof (induction r arbitrary: s s')
  case (Lit w)
  from ms_atom_caps(1)[OF Lit(1)] Lit show ?case by simp
next
  case (In cs)
  from ms_atom_caps(2)[OF In(1)] In show ?case by simp
next
  case (NotIn cs)
  from ms_atom_caps(3)[OF NotIn(1)] NotIn show ?case by simp
next
  case Dot
  from ms_atom_caps(4)[OF Dot(1)] Dot show ?case by simp
next
  case Bol
  from ms_atom_caps(5)[OF Bol(1)] Bol show ?case by simp
next
  case WordB
  from ms_atom_caps(6)[OF WordB(1)] WordB show ?case by simp
next
  case (Seq a b)
  then obtain x where x: "x \<in> set (ms a s)" "s' \<in> set (ms b x)" by auto
  from x(1) have "length (caps x) = length (caps s)"
    by (simp add: ms_follows follows_caps_length)
  with Seq x show ?case by metis
next
  case (Alt a b)
  then show ?case by auto
next
  case (Star a)
  let ?R = "\<lambda>a b. length (caps b) = length (caps a) \<and> (i < length (caps a) \<longrightarrow> caps a ! i \<noteq> None \<longrightarrow> caps b ! i \<noteq> None)"
  have "?R s s'"
    by (rule star_all_rel[where R = ?R and f = "ms a"])
       (use Star in \<open>auto simp: ms_follows follows_caps_length\<close>)
  with Star show ?case by simp
next
  case (LazyStar a)
  let ?R = "\<lambda>a b. length (caps b) = length (caps a) \<and> (i < length (caps a) \<longrightarrow> caps a ! i \<noteq> None \<longrightarrow> caps b ! i \<noteq> None)"
  have "?R s s'"
    by (rule lazy_all_rel[where R = ?R and f = "ms a"])
       (use LazyStar in \<open>auto simp: ms_follows follows_caps_length\<close>)
  with LazyStar show ?case by simp
next
  case (Plus a)
  from Plus.prems obtain x where x: "x \<in> set (ms a s)" "s' \<in> set (star_all (rest x) (ms a) x)"
    by (auto simp: star_from_def)
  let ?R = "\<lambda>a b. length (caps b) = length (caps a) \<and> (i < length (caps a) \<longrightarrow> caps a ! i \<noteq> None \<longrightarrow> caps b ! i \<noteq> None)"
  have len: "length (caps x) = length (caps s)"
    using x(1) by (simp add: ms_follows follows_caps_length)
  have "?R x s'"
    by (rule star_all_rel[where R = ?R and f = "ms a"])
       (use Plus x len in \<open>auto simp: ms_follows follows_caps_length\<close>)
  moreover have "caps x ! i \<noteq> None" using Plus x by blast
  ultimately show ?case using len Plus.prems by simp
next
  case (Opt a)
  then show ?case by auto
next
  case (Grp j a)
  from Grp.prems obtain x where x: "x \<in> set (ms a s)" "s' = capture j s x" by auto
  have "length (caps x) = length (caps s)"
    using x(1) by (simp add: ms_follows follows_caps_length)
  moreover have "caps x ! i \<noteq> None" using Grp x by blast
  ultimately show ?case using Grp.prems x
    by (cases "i = j") (auto simp: capture_def)
qed

lemma ms_sets:
  "s' \<in> set (ms r s) \<Longrightarrow> sets_group r i \<Longrightarrow> i < length (caps s) \<Longrightarrow> caps s' ! i \<noteq> None"
proof (induction r arbitrary: s s')
  case (Seq a b)
  then obtain x where x: "x \<in> set (ms a s)" "s' \<in> set (ms b x)" by auto
  have len: "length (caps x) = length (caps s)"
    using x(1) by (simp add: ms_follows follows_caps_length)
  show ?case
  proof (cases "sets_group a i")
    case True
    with Seq x have "caps x ! i \<noteq> None" by blast
    with x len Seq.prems show ?thesis using ms_stays_set by metis
  next
    case False
    with Seq.prems have "sets_group b i" by simp
    with Seq x len show ?thesis by metis
  qed
next
  case (Alt a b)
  then show ?case by auto
next
  case (Plus a)
  from Plus.prems obtain x where x: "x \<in> set (ms a s)" "s' \<in> set (ms (Star a) x)"
    by (auto simp: star_from_def)
  have len: "length (caps x) = length (caps s)"
    using x(1) by (simp add: ms_follows follows_caps_length)
  from Plus x have "caps x ! i \<noteq> None" by auto
  with ms_stays_set[OF x(2), of i] len Plus.prems show ?case by simp
next
  case (Grp j a)
  from Grp.prems obtain x where x: "x \<in> set (ms a s)" "s' = capture j s x" by auto
  have len: "length (caps x) = length (caps s)"
    using x(1) by (simp add: ms_follows follows_caps_length)
  show ?case
  proof (cases "j = i")
    case True
    with x len Grp.prems show ?thesis by (simp add: capture_def)
  next
    case False
    with Grp x have "caps x ! i \<noteq> None" by auto
    with False x show ?thesis by (simp add: capture_def)
  qed
qed auto

lemma ms_consumes: "s' \<in> set (ms r s) \<Longrightarrow> consumes r \<Longrightarrow> pos s < pos s'"
proof (induction r arbitrary: s s')
  case (Lit w)
  then show ?case by (cases w) (auto split: option.splits)
next
  case (Seq a b)
  then obtain x where x: "x \<in> set (ms a s)" "s' \<in> set (ms b x)" by auto
  from x have "pos s \<le> pos x" "pos x \<le> pos s'" by (simp_all add: ms_follows follows_pos)
  moreover from Seq x have "pos s < pos x \<or> pos x < pos s'" by auto
  ultimately show ?case by linarith
next
  case (Plus a)
  from Plus.prems obtain x where x: "x \<in> set (ms a s)" "s' \<in> set (ms (Star a) x)"
    by (auto simp: star_from_def)
  from ms_follows[OF x(2)] have "pos x \<le> pos s'" by (rule follows_pos)
  moreover from Plus x have "pos s < pos x" by auto
  ultimately show ?case by linarith
next
  case (Grp j a)
  then show ?case by (auto simp: capture_def)
qed (auto simp: advance_def split: list.splits if_splits)

lemma spans_ok_same_caps: "spans_ok s \<Longrightarrow> caps s' = caps s \<Longrightarrow> pos s \<le> pos s' \<Longrightarrow> spans_ok s'"
  unfolding spans_ok_def by (metis le_trans)

lemma ms_spans_ok: "s' \<in> set (ms r s) \<Longrightarrow> groups_consume r \<Longrightarrow> spans_ok s \<Longrightarrow> spans_ok s'"
proof (induction r arbitrary: s s')
  case (Lit w)
  from ms_atom_caps(1)[OF Lit(1)] ms_follows[OF Lit(1)] Lit(3) show ?case
    by (auto intro: spans_ok_same_caps follows_pos)
next
  case (In cs)
  from ms_atom_caps(2)[OF In(1)] ms_follows[OF In(1)] In(3) show ?case
    by (auto intro: spans_ok_same_caps follows_pos)
next
  case (NotIn cs)
  from ms_atom_caps(3)[OF NotIn(1)] ms_follows[OF NotIn(1)] NotIn(3) show ?case
    by (auto intro: spans_ok_same_caps follows_pos)
next
  case Dot
  from ms_atom_caps(4)[OF Dot(1)] ms_follows[OF Dot(1)] Dot(3) show ?case
    by (auto intro: spans_ok_same_caps follows_pos)
next
  case Bol
  from ms_atom_caps(5)[OF Bol(1)] ms_follows[OF Bol(1)] Bol(3) show ?case
    by (auto intro: spans_ok_same_caps follows_pos)
next
  case WordB
  from ms_atom_caps(6)[OF WordB(1)] ms_follows[OF WordB(1)] WordB(3) show ?case
    by (auto intro: spans_ok_same_caps follows_pos)
next
  case (Seq a b)
  then obtain x where x: "x \<in> set (ms a s)" "s' \<in> set (ms b x)" by auto
  with Seq show ?case by (metis groups_consume.simps(7))
next
  case (Alt a b)
  then show ?case by auto
next
  case (Star a)
  have "spans_ok s \<longrightarrow> spans_ok s'"
    by (rule star_all_rel[where R = "\<lambda>a b. spans_ok a \<longrightarrow> spans_ok b" and f = "ms a"])
       (use Star in auto)
  with Star show ?case by simp
next
  case (LazyStar a)
  have "spans_ok s \<longrightarrow> spans_ok s'"
    by (rule lazy_all_rel[where R = "\<lambda>a b. spans_ok a \<longrightarrow> spans_ok b" and f = "ms a"])
       (use LazyStar in auto)
  with LazyStar show ?case by simp
next
  case (Plus a)
  from Plus.prems obtain x where x: "x \<in> set (ms a s)" "s' \<in> set (star_all (rest x) (ms a) x)"
    by (auto simp: star_from_def)
  have "spans_ok x \<longrightarrow> spans_ok s'"
    by (rule star_all_rel[where R = "\<lambda>a b. spans_ok a \<longrightarrow> spans_ok b" and f = "ms a"])
       (use Plus x in auto)
  moreover have "spans_ok x" using Plus x by auto
  ultimately show ?case by simp
next
  case (Opt a)
  then show ?case by auto
next
  case (Grp j a)
  from Grp.prems obtain x where x: "x \<in> set (ms a s)" "s' = capture j s x" by auto
  from Grp x have ok: "spans_ok x" by auto
  from Grp.prems x have lt: "pos s < pos x" by (auto intro: ms_consumes)
  show ?case
    unfolding spans_ok_def
  proof (intro allI impI)
    fix i a' b'
    assume h: "i < length (caps s') \<and> caps s' ! i = Some (a', b')"
    show "a' < b' \<and> b' \<le> pos s'"
    proof (cases "i = j")
      case True
      with h x lt show ?thesis by (auto simp: capture_def)
    next
      case False
      with h x ok show ?thesis by (auto simp: capture_def spans_ok_def)
    qed
  qed
qed

lemma ms_cat_append:
  "set (ms (cat (xs @ ys)) s) = (\<Union>x \<in> set (ms (cat xs) s). set (ms (cat ys) x))"
proof (induction xs arbitrary: s rule: cat.induct)
  case 1
  show ?case by simp
next
  case (2 r)
  show ?case by (cases ys) auto
next
  case (3 r v va)
  have "cat ((r # v # va) @ ys) = Seq r (cat ((v # va) @ ys))" by simp
  with 3 show ?case by auto
qed

lemma attempt_in_ms:
  "attempt r caps0 adv pv t = Some e \<Longrightarrow> e \<in> set (ms r (MState pv t 0 caps0))"
  by (auto simp: attempt_def find_Some_iff)

lemma search_from_attempt:
  "search_from r caps0 adv pv p t = Some (mt, e) \<Longrightarrow>
     \<exists>adv' pv' q t'. attempt r caps0 adv' pv' t' = Some e \<and> mt = mk_match q t' e"
proof (induction t arbitrary: adv pv p)
  case Nil
  then show ?case by (auto split: option.splits)
next
  case (Cons c cs)
  then show ?case by (fastforce split: option.splits)
qed

lemma match_iter_attempt:
  "mt \<in> set (match_iter r caps0 adv pv p t) \<Longrightarrow>
     \<exists>adv' pv' q t' e. attempt r caps0 adv' pv' t' = Some e \<and> mt = mk_match q t' e"
proof (induction r caps0 adv pv p t rule: match_iter.induct)
  case (1 r caps0 adv pv p t)
  show ?case
  proof (cases "search_from r caps0 adv pv p t")
    case None
    with "1.prems" show ?thesis by (subst (asm) match_iter.simps) simp
  next
    case (Some x)
    obtain m0 e where x: "x = (m0, e)" by (cases x)
    from search_from_attempt[OF Some[unfolded x]] have first:
      "\<exists>adv' pv' q t' e. attempt r caps0 adv' pv' t' = Some e \<and> m0 = mk_match q t' e" by blast
    from "1.prems" Some x consider "mt = m0"
      | "length (rest e) < length t"
        "mt \<in> set (match_iter r caps0 (m_end m0 = m_start m0) (prev e) (m_end m0) (rest e))"
      | "\<not> length (rest e) < length t" "\<not> adv" "mt \<in> set (match_iter r caps0 True pv p t)"
      by (subst (asm) match_iter.simps) (auto split: if_splits)
    then show ?thesis
    proof cases
      case 1
      with first show ?thesis by simp
    next
      case 2
      with "1.IH"(1)[OF Some x[symmetric]] show ?thesis by simp
    next
      case 3
      with "1.IH"(2)[OF Some x[symmetric]] show ?thesis by simp
    qed
  qed
qed

lemma group_mk_match:
  "0 < i \<Longrightarrow> i < length (caps e) \<Longrightarrow> group (mk_match q t e) i = span_text t (caps e ! i)"
  by (simp add: group_def mk_match_def)

lemma span_text_nonempty:
  "a < b \<Longrightarrow> b \<le> length t \<Longrightarrow> \<exists>w. span_text t (Some (a, b)) = Some w \<and> w \<noteq> []"
  by auto

subsection \<open>The groups of the \<open>execute\<close> pattern\<close>

lemmas pattern_defs = execute_pattern_def call_head_def backend_expr_def call_tail_def
  ident_def spaces0_def spaces1_def quote_def

lemma execute_no_groups: "no_groups execute_pattern = replicate 6 None"
  by (simp add: no_groups_def pattern_defs)

lemma spans_ok_start: "spans_ok (MState pv t 0 (replicate n None))"
  by (auto simp: spans_ok_def)

lemma execute_end_state:
  assumes e: "e \<in> set (ms execute_pattern (MState pv t 0 (replicate 6 None)))"
  shows "length (caps e) = 6" and "spans_ok e" and "pos e \<le> length t"
    and "caps e ! 1 \<noteq> None" and "caps e ! 2 \<noteq> None"
    and "(caps e ! 3 \<noteq> None \<and> caps e ! 4 = None) \<or> (caps e ! 3 = None \<and> caps e ! 4 \<noteq> None)"
proof -
  let ?s0 = "MState pv t 0 (replicate 6 None)"
  from ms_follows[OF e] show len: "length (caps e) = 6" and "pos e \<le> length t"
    by (auto simp: follows_def)
  show "spans_ok e"
    by (rule ms_spans_ok[OF e _ spans_ok_start]) (simp add: pattern_defs)
  show "caps e ! 1 \<noteq> None"
    by (rule ms_sets[OF e]) (simp_all add: pattern_defs)
  show "caps e ! 2 \<noteq> None"
    by (rule ms_sets[OF e]) (simp_all add: pattern_defs)
  from e obtain x y where x: "x \<in> set (ms (cat call_head) ?s0)"
    and y: "y \<in> set (ms backend_expr x)" and t: "e \<in> set (ms (cat call_tail) y)"
    unfolding execute_pattern_def ms_cat_append by auto
  have x3: "caps x ! 3 = None" "caps x ! 4 = None"
    using ms_keeps[OF x, of 3] ms_keeps[OF x, of 4] by (simp_all add: pattern_defs)
  have lx: "length (caps x) = 6" using ms_follows[OF x] by (auto simp: follows_def)
  let ?A = "cat [Lit ''Aer.get_backend('', spaces0, quote, Grp 3 ident, quote, spaces0, Lit '')'']"
  let ?B = "Grp 4 (Plus (In [CWord]))"
  from y have "y \<in> set (ms ?A x) \<or> y \<in> set (ms ?B x)" by (auto simp: backend_expr_def)
  then have mid: "(caps y ! 3 \<noteq> None \<and> caps y ! 4 = None) \<or> (caps y ! 3 = None \<and> caps y ! 4 \<noteq> None)"
  proof
    assume a: "y \<in> set (ms ?A x)"
    have "caps y ! 3 \<noteq> None" by (rule ms_sets[OF a]) (simp_all add: pattern_defs lx)
    moreover have "caps y ! 4 = None" using ms_keeps[OF a, of 4] x3 by (simp add: pattern_defs)
    ultimately show ?thesis by simp
  next
    assume b: "y \<in> set (ms ?B x)"
    have "caps y ! 4 \<noteq> None" by (rule ms_sets[OF b]) (simp_all add: lx)
    moreover have "caps y ! 3 = None" using ms_keeps[OF b, of 3] x3 by simp
    ultimately show ?thesis by simp
  qed
  have "caps e ! 3 = caps y ! 3" "caps e ! 4 = caps y ! 4"
    using ms_keeps[OF t, of 3] ms_keeps[OF t, of 4] by (simp_all add: pattern_defs)
  with mid show "(caps e ! 3 \<noteq> None \<and> caps e ! 4 = None) \<or> (caps e ! 3 = None \<and> caps e ! 4 \<noteq> None)"
    by simp
qed

lemma group_of_span:
  assumes "spans_ok e" "pos e \<le> length t" "0 < i" "i < length (caps e)"
  shows "group (mk_match q t e) i = None \<longleftrightarrow> caps e ! i = None"
    and "group (mk_match q t e) i \<noteq> Some []"
proof -
  have g: "group (mk_match q t e) i = span_text t (caps e ! i)"
    using assms by (simp add: group_mk_match)
  show "group (mk_match q t e) i = None \<longleftrightarrow> caps e ! i = None"
    unfolding g by (cases "caps e ! i") auto
  show "group (mk_match q t e) i \<noteq> Some []"
  proof (cases "caps e ! i")
    case None
    then show ?thesis by (simp add: g)
  next
    case (Some ab)
    obtain a b where ab: "ab = (a, b)" by (cases ab)
    from assms Some ab have "a < b" "b \<le> pos e" by (auto simp: spans_ok_def)
    with assms(2) Some ab show ?thesis by (auto simp: g)
  qed
qed

lemma execute_match_groups:
  assumes "mt \<in> set (finditer execute_pattern code)"
  shows "group mt 1 \<noteq> None" "group mt 2 \<noteq> None"
    and "(group mt 3 \<noteq> None \<and> group mt 4 = None) \<or> (group mt 3 = None \<and> group mt 4 \<noteq> None)"
    and "group mt i \<noteq> Some []"
proof -
  from assms obtain adv pv q t e
    where a: "attempt execute_pattern (replicate 6 None) adv pv t = Some e"
      and mt: "mt = mk_match q t e"
    unfolding finditer_def execute_no_groups by (blast dest: match_iter_attempt)
  note st = execute_end_state[OF attempt_in_ms[OF a]]
  note g = group_of_span[OF st(2) st(3), of _ q]
  show "group mt 1 \<noteq> None" "group mt 2 \<noteq> None"
    using g(1)[of 1] g(1)[of 2] st by (simp_all add: mt)
  show "(group mt 3 \<noteq> None \<and> group mt 4 = None) \<or> (group mt 3 = None \<and> group mt 4 \<noteq> None)"
    using g(1)[of 3] g(1)[of 4] st by (simp add: mt)
  show "group mt i \<noteq> Some []"
  proof (cases "0 < i \<and> i < 6")
    case True
    then show ?thesis using g(2)[of i] st(1) by (simp add: mt)
  next
    case False
    then consider "i = 0" | "6 \<le> i" by linarith
    then show ?thesis
    proof cases
      case 1
      have "0 < pos e"
        by (rule ms_consumes[OF attempt_in_ms[OF a], simplified]) (simp add: pattern_defs)
      with st(3) show ?thesis by (auto simp: 1 mt group_def mk_match_def st(1))
    next
      case 2
      then show ?thesis by (simp add: mt group_def mk_match_def st(1))
    qed
  qed
qed

subsection \<open>Splitting an import list\<close>

lemma py_split_nonempty: "py_split c s \<noteq> []"
  by (induction s) (auto split: list.splits)

lemma py_split_no_sep: "c \<notin> set x \<Longrightarrow> py_split c x = [x]"
  by (induction x) auto

lemma py_split_append: "c \<notin> set x \<Longrightarrow> py_split c (x @ c # s) = x # py_split c s"
  by (induction x) auto

lemma py_split_join:
  "xs \<noteq> [] \<Longrightarrow> \<forall>x \<in> set xs. c \<notin> set x \<Longrightarrow> py_split c (py_join [c] xs) = xs"
proof (induction "[c]" xs rule: py_join.induct)
  case 1
  then show ?case by simp
next
  case (2 x)
  then show ?case by (simp add: py_split_no_sep)
next
  case (3 x y ys)
  then show ?case by (simp add: py_split_append)
qed

lemma not_space_comma: "\<not> is_space CHR '',''"
  by (simp add: is_space_def)

lemma py_strip_padded:
  assumes "list_all is_space l" "list_all is_space r"
    and "s = [] \<or> (\<not> is_space (hd s) \<and> \<not> is_space (last s))"
  shows "py_strip (l @ s @ r) = s"
proof (cases "s = []")
  case True
  with assms have "\<forall>x \<in> set (l @ s @ r). is_space x" by (auto simp: list_all_iff)
  then have d: "dropWhile is_space (l @ s @ r) = []" by (simp only: dropWhile_eq_Nil_conv)
  have "py_strip (l @ s @ r) = []" by (simp only: py_strip_def d rev.simps dropWhile.simps)
  with True show ?thesis by simp
next
  case False
  with assms have h: "\<not> is_space (hd s)" "\<not> is_space (last s)" by auto
  from False h(1) assms(1) have "dropWhile is_space (l @ s @ r) = s @ r"
    by (cases s) (auto simp: list_all_iff dropWhile_append)
  moreover from False h(2) assms(2) have "dropWhile is_space (rev r @ rev s) = rev s"
    by (cases s rule: rev_cases) (auto simp: list_all_iff dropWhile_append)
  ultimately show ?thesis by (simp add: py_strip_def)
qed

lemma import_items_padded:
  assumes "es \<noteq> []" "list_all import_entry es"
  shows "import_items (py_join '','' (map padded es)) = map entry_name es"
proof -
  have "\<forall>x \<in> set (map padded es). CHR '','' \<notin> set x"
    using assms(2) not_space_comma
    by (auto simp: list_all_iff import_entry_def padded_def)
  with assms(1) have "py_split CHR '','' (py_join '','' (map padded es)) = map padded es"
    by (intro py_split_join) auto
  moreover have "py_strip (padded e) = entry_name e" if "e \<in> set es" for e
  proof -
    obtain l s r where e: "e = (l, s, r)" by (cases e)
    from that assms(2) have "import_entry e" by (simp add: list_all_iff)
    then show ?thesis by (simp add: e import_entry_def padded_def entry_name_def py_strip_padded)
  qed
  then have "map py_strip (map padded es) = map entry_name es" by simp
  ultimately show ?thesis by (simp add: import_items_def)
qed

subsection \<open>Runs of one line\<close>

declare squeeze.simps(2) [simp del]

lemma strip_prefix_take: "(strip_prefix w t = None) = (take (length w) t \<noteq> w)"
  by (induction w t rule: strip_prefix.induct) auto

lemma strip_prefix_drop: "strip_prefix w t = Some r \<Longrightarrow> take (length w) t = w \<and> r = drop (length w) t"
  by (auto dest: strip_prefix_Some)

lemma squeeze_run:
  "w \<noteq> [] \<Longrightarrow> take (length w) r = w \<Longrightarrow> squeeze w (w @ r) = squeeze w r"
  by (cases w) (simp_all add: squeeze.simps(2))

lemma squeeze_keep:
  "w \<noteq> [] \<Longrightarrow> take (length w) r \<noteq> w \<Longrightarrow> squeeze w (w @ r) = w @ squeeze w r"
  by (cases w) (simp_all add: squeeze.simps(2))

lemma squeeze_pass:
  "w \<noteq> [] \<Longrightarrow> take (length w) (c # s) \<noteq> w \<Longrightarrow> squeeze w (c # s) = c # squeeze w s"
  by (simp add: squeeze.simps(2))

lemma Cons_is_append:
  assumes "w \<noteq> []" "take (length w) (c # s) = w"
  shows "c # s = w @ drop (length w) (c # s)"
  using assms by (metis append_take_drop_id)

lemma take_over: "length w \<le> length a \<Longrightarrow> take (length w) (a @ b) = take (length w) a"
  by simp

lemma squeeze_prefix:
  "w \<noteq> [] \<Longrightarrow> length u \<le> length w \<Longrightarrow> take (length w) (u @ squeeze w s) = w
     \<Longrightarrow> take (length w) (u @ s) = w"
proof (induction w s arbitrary: u rule: squeeze.induct)
  case (1 w)
  then show ?case by simp
next
  case (2 w c s)
  let ?n = "length w"
  let ?r = "drop ?n (c # s)"
  show ?case
  proof (cases "take ?n (c # s) = w")
    case True
    then have cs: "c # s = w @ ?r" using "2.prems"(1) by (rule Cons_is_append[rotated])
    have over: "take ?n (u @ w @ x) = take ?n (u @ w)" for x
      using take_over[of w "u @ w" x] by simp
    show ?thesis
    proof (cases "take ?n ?r = w")
      case run: True
      then have r: "?r = w @ drop ?n ?r" by (metis append_take_drop_id)
      from True run "2.prems"(1) have "squeeze w (c # s) = squeeze w ?r"
        by (simp add: squeeze.simps(2))
      with "2.prems" have "take ?n (u @ squeeze w ?r) = w" by simp
      from "2.IH"(1)[OF _ run "2.prems"(1,2) this] True "2.prems"(1)
      have "take ?n (u @ ?r) = w" by simp
      then have "take ?n (u @ w @ drop ?n ?r) = w" using r by simp
      then have "take ?n (u @ w) = w" using over by simp
      then have "take ?n (u @ w @ ?r) = w" using over by simp
      with cs show ?thesis by simp
    next
      case keep: False
      from True keep "2.prems"(1) have "squeeze w (c # s) = w @ squeeze w ?r"
        by (simp add: squeeze.simps(2))
      with "2.prems" have "take ?n (u @ w @ squeeze w ?r) = w" by simp
      then have "take ?n (u @ w) = w" using over by simp
      then have "take ?n (u @ w @ ?r) = w" using over by simp
      with cs show ?thesis by simp
    qed
  next
    case False
    with "2.prems"(1) have sq: "squeeze w (c # s) = c # squeeze w s" by (rule squeeze_pass)
    show ?thesis
    proof (cases "length u < ?n")
      case True
      from "2.prems"(3) sq have "take ?n ((u @ [c]) @ squeeze w s) = w" by simp
      moreover from True have "length (u @ [c]) \<le> ?n" by simp
      ultimately have "take ?n ((u @ [c]) @ s) = w"
        using "2.IH"(3)[OF _ "2.prems"(1)] False by blast
      then show ?thesis by simp
    next
      case full: False
      with "2.prems"(2) have "length u = ?n" by simp
      with "2.prems"(3) show ?thesis by simp
    qed
  qed
qed

lemma py_in_take: "take (length p) t = p \<Longrightarrow> py_in p t"
  by (cases t) (auto simp: strip_prefix_take)

lemma py_in_Cons: "py_in p s \<Longrightarrow> py_in p (c # s)"
  by simp

lemma py_in_append: "py_in p x \<Longrightarrow> py_in p (a @ x)"
  by (induction a) auto

lemma py_in_append_cases:
  "py_in p (a @ x) \<Longrightarrow> (\<exists>j < length a. take (length p) (drop j a @ x) = p) \<or> py_in p x"
proof (induction a)
  case Nil
  then show ?case by simp
next
  case (Cons c a)
  from Cons.prems have "take (length p) (c # a @ x) = p \<or> py_in p (a @ x)"
    by (auto simp: strip_prefix_take)
  then show ?case
  proof
    assume "take (length p) (c # a @ x) = p"
    then have "take (length p) (drop 0 (c # a) @ x) = p" by simp
    then show ?thesis by blast
  next
    assume "py_in p (a @ x)"
    from Cons.IH[OF this] show ?thesis
    proof
      assume "\<exists>j<length a. take (length p) (drop j a @ x) = p"
      then obtain j where "j < length a" "take (length p) (drop j a @ x) = p" by blast
      then have "Suc j < length (c # a)" "take (length p) (drop (Suc j) (c # a) @ x) = p" by simp_all
      then show ?thesis by blast
    next
      assume "py_in p x"
      then show ?thesis by simp
    qed
  qed
qed

lemma no_overlap:
  assumes "d \<notin> set v" "0 < j" "j \<le> length v"
  shows "take (Suc (length v)) (drop j (v @ [d]) @ x) \<noteq> v @ [d]"
proof
  assume eq: "take (Suc (length v)) (drop j (v @ [d]) @ x) = v @ [d]"
  let ?k = "length v - j"
  let ?y = "drop j (v @ [d]) @ x"
  from assms have k: "?k < length v" by simp
  have y: "?y = drop j v @ d # x" using assms by simp
  have "(drop j v @ d # x) ! ?k = d" by (simp add: nth_append)
  then have yk: "?y ! ?k = d" by (simp only: y)
  have "?k < Suc (length v)" using k by simp
  then have "take (Suc (length v)) ?y ! ?k = ?y ! ?k" by (rule nth_take)
  then have "(v @ [d]) ! ?k = d" by (simp only: eq yk)
  with k have "v ! ?k = d" by (simp add: nth_append)
  with k assms(1) show False by (metis nth_mem)
qed

lemma squeeze_no_double:
  "d \<notin> set v \<Longrightarrow> w = v @ [d] \<Longrightarrow> \<not> py_in (w @ w) (squeeze w t)"
proof (induction w t rule: squeeze.induct)
  case (1 w)
  then show ?case by simp
next
  case (2 w c s)
  let ?n = "length w"
  let ?r = "drop ?n (c # s)"
  from "2.prems" have w: "w \<noteq> []" by simp
  have pre: "take ?n y = w" if "take (length (w @ w)) y = w @ w" for y
  proof -
    from that have "take ?n (take (length (w @ w)) y) = take ?n (w @ w)" by simp
    then show ?thesis by (simp add: min_def)
  qed
  show ?case
  proof (cases "take ?n (c # s) = w")
    case True
    show ?thesis
    proof (cases "take ?n ?r = w")
      case run: True
      from True run w have "squeeze w (c # s) = squeeze w ?r" by (simp add: squeeze.simps(2))
      with "2.IH"(1)[OF _ run "2.prems"] True w show ?thesis by simp
    next
      case keep: False
      from True keep w have sq: "squeeze w (c # s) = w @ squeeze w ?r"
        by (simp add: squeeze.simps(2))
      from "2.IH"(2)[OF _ keep "2.prems"] True w
      have ih: "\<not> py_in (w @ w) (squeeze w ?r)" by simp
      show ?thesis
      proof
        assume "py_in (w @ w) (squeeze w (c # s))"
        with sq have "py_in (w @ w) (w @ squeeze w ?r)" by simp
        from py_in_append_cases[OF this] ih
        obtain j where j: "j < ?n" "take (length (w @ w)) (drop j w @ squeeze w ?r) = w @ w"
          by blast
        from pre[OF j(2)] have p: "take ?n (drop j w @ squeeze w ?r) = w" .
        show False
        proof (cases "j = 0")
          case True
          with p have "take ?n (w @ squeeze w ?r) = w" by simp
          from j(2) True have "take ?n (squeeze w ?r) = w" by simp
          then have "take ?n ([] @ squeeze w ?r) = w" by simp
          from squeeze_prefix[OF w _ this] have "take ?n ?r = w" by simp
          with keep show False by simp
        next
          case False
          with j(1) "2.prems" have "0 < j" "j \<le> length v" by simp_all
          from no_overlap[OF "2.prems"(1) this, of "squeeze w ?r"] p "2.prems"(2)
          show False by simp
        qed
      qed
    qed
  next
    case False
    with w have sq: "squeeze w (c # s) = c # squeeze w s" by (rule squeeze_pass)
    from "2.IH"(3)[OF _ "2.prems"] False have ih: "\<not> py_in (w @ w) (squeeze w s)" by simp
    show ?thesis
    proof
      assume "py_in (w @ w) (squeeze w (c # s))"
      with sq ih have "take (length (w @ w)) (c # squeeze w s) = w @ w"
        by (auto simp: strip_prefix_take)
      from pre[OF this] have "take ?n ([c] @ squeeze w s) = w" by simp
      moreover from w have "length [c] \<le> ?n" by (cases w) simp_all
      ultimately have "take ?n ([c] @ s) = w" using squeeze_prefix[OF w] by blast
      with False show False by simp
    qed
  qed
qed

lemma squeeze_id:
  "w \<noteq> [] \<Longrightarrow> \<not> py_in (w @ w) t \<Longrightarrow> squeeze w t = t"
proof (induction w t rule: squeeze.induct)
  case (1 w)
  then show ?case by simp
next
  case (2 w c s)
  let ?n = "length w"
  let ?r = "drop ?n (c # s)"
  show ?case
  proof (cases "take ?n (c # s) = w")
    case True
    then have cs: "c # s = w @ ?r" using "2.prems"(1) by (rule Cons_is_append[rotated])
    show ?thesis
    proof (cases "take ?n ?r = w")
      case run: True
      then have "?r = w @ drop ?n ?r" by (metis append_take_drop_id)
      with cs have "c # s = (w @ w) @ drop ?n ?r" by simp
      then have "take (length (w @ w)) (c # s) = w @ w"
        by (metis append_eq_conv_conj)
      then have "py_in (w @ w) (c # s)" by (rule py_in_take)
      with "2.prems" show ?thesis by simp
    next
      case keep: False
      have "\<not> py_in (w @ w) ?r"
      proof
        assume "py_in (w @ w) ?r"
        then have "py_in (w @ w) (w @ ?r)" by (rule py_in_append)
        with cs "2.prems" show False by simp
      qed
      from "2.IH"(2)[OF _ keep "2.prems"(1) this] True "2.prems"(1)
      have "squeeze w ?r = ?r" by simp
      moreover from True keep "2.prems"(1) have "squeeze w (c # s) = w @ squeeze w ?r"
        by (simp add: squeeze.simps(2))
      ultimately show ?thesis using cs by simp
    qed
  next
    case False
    with "2.prems"(1) have sq: "squeeze w (c # s) = c # squeeze w s" by (rule squeeze_pass)
    from "2.prems"(2) have "\<not> py_in (w @ w) s" by auto
    from "2.IH"(3)[OF _ "2.prems"(1) this] False have "squeeze w s = s" by simp
    with sq show ?thesis by simp
  qed
qed

subsection \<open>Substitution of a repeated literal\<close>

lemma lit_star_head:
  "w \<noteq> [] \<Longrightarrow> length (rest s) \<le> length fuel \<Longrightarrow>
     \<exists>e es. star_all fuel (ms (Lit w)) s = e # es
            \<and> squeeze w (w @ rest s) = w @ squeeze w (rest e)"
proof (induction fuel arbitrary: s)
  case Nil
  then have rs: "rest s = []" by simp
  from Nil.prems(1) have "squeeze w (w @ []) = w @ squeeze w []"
    by (intro squeeze_keep) auto
  then show ?case by (simp add: rs)
next
  case (Cons x fuel)
  show ?case
  proof (cases "strip_prefix w (rest s)")
    case None
    then have "take (length w) (rest s) \<noteq> w" by (simp add: strip_prefix_take)
    with Cons.prems None show ?thesis by (simp add: squeeze_keep)
  next
    case (Some r1)
    from strip_prefix_Some[OF Some] have rs: "rest s = w @ r1" .
    let ?s1 = "lit_state s w r1"
    from Cons.prems(1) have r1: "rest ?s1 = r1" and adv: "advanced s ?s1"
      by (cases w; simp add: advanced_def)+
    from rs Cons.prems have "length (rest ?s1) \<le> length fuel"
      by (cases w) (simp_all add: r1)
    from Cons.IH[OF Cons.prems(1) this] obtain e es
      where e: "star_all fuel (ms (Lit w)) ?s1 = e # es"
        and sq: "squeeze w (w @ r1) = w @ squeeze w (rest e)" unfolding r1 by blast
    have st: "star_all (x # fuel) (ms (Lit w)) s = e # (es @ [s])"
      using Some adv e by simp
    have "squeeze w (w @ rest s) = squeeze w (w @ r1)"
      unfolding rs using Cons.prems(1) by (intro squeeze_run) simp_all
    with sq have "squeeze w (w @ rest s) = w @ squeeze w (rest e)" by (simp only:)
    with st show ?thesis by blast
  qed
qed

lemma plus_lit_attempt_None:
  "take (length w) t \<noteq> w \<Longrightarrow> attempt (Plus (Lit w)) caps0 adv pv t = None"
  using strip_prefix_take[of w t] by (simp add: attempt_def)

lemma plus_lit_attempt_Some:
  assumes "w \<noteq> []" "take (length w) t = w"
  shows "\<exists>e. attempt (Plus (Lit w)) caps0 False pv t = Some e
             \<and> squeeze w t = w @ squeeze w (rest e)"
proof -
  let ?s0 = "MState pv t 0 caps0"
  from assms(2) obtain r1 where sp: "strip_prefix w t = Some r1"
    using strip_prefix_take[of w t] by auto
  from strip_prefix_Some[OF sp] have t: "t = w @ r1" .
  let ?s1 = "lit_state ?s0 w r1"
  from assms(1) have r1: "rest ?s1 = r1" by (cases w) simp_all
  from lit_star_head[OF assms(1), of ?s1 "rest ?s1"] obtain e es
    where e: "star_all (rest ?s1) (ms (Lit w)) ?s1 = e # es"
      and sq: "squeeze w (w @ rest ?s1) = w @ squeeze w (rest e)" by auto
  have "ms (Plus (Lit w)) ?s0 = e # es"
    using sp e by (simp add: star_from_def)
  then have "attempt (Plus (Lit w)) caps0 False pv t = Some e"
    by (simp add: attempt_def acceptable_def)
  with sq[unfolded r1] show ?thesis by (simp add: t)
qed

lemma match_iter_skip:
  assumes "attempt r caps0 False pv (c # s) = None" and "consumes r"
  shows "match_iter r caps0 False pv p (c # s) = match_iter r caps0 False (Some c) (Suc p) s"
proof (cases "search_from r caps0 False (Some c) (Suc p) s")
  case None
  with assms(1) show ?thesis
    by (subst match_iter.simps, subst (2) match_iter.simps) simp
next
  case (Some x)
  obtain mt e where x: "x = (mt, e)" by (cases x)
  note sf = search_from_Some[OF Some[unfolded x]]
  from search_from_attempt[OF Some[unfolded x]] obtain adv' pv' q t'
    where "attempt r caps0 adv' pv' t' = Some e" by blast
  from ms_consumes[OF attempt_in_ms[OF this] assms(2)] have "0 < pos e" by simp
  with sf have "length (rest e) < length s" by auto
  with assms(1) Some x show ?thesis
    by (subst match_iter.simps, subst (2) match_iter.simps) simp
qed

lemma splice_shift:
  assumes "sorted_spans (Suc p) hi mts" "p < length full"
    and "splice full (Suc p) repl mts = Inr x"
  shows "splice full p repl mts = Inr (full ! p # x)"
proof (cases mts)
  case Nil
  with assms show ?thesis by (auto simp: Cons_nth_drop_Suc)
next
  case (Cons mt mts')
  with assms(1) have "Suc p \<le> m_start mt" by simp
  then have k: "m_start mt - p = Suc (m_start mt - Suc p)" by simp
  from assms(2) have "drop p full = full ! p # drop (Suc p) full" by (simp add: Cons_nth_drop_Suc)
  then have "take (m_start mt - p) (drop p full)
               = full ! p # take (m_start mt - Suc p) (drop (Suc p) full)"
    by (simp add: k)
  with assms(3) Cons show ?thesis by (auto split: sum.splits)
qed

lemma sub_plus_lit:
  "w \<noteq> [] \<Longrightarrow> p \<le> length full \<Longrightarrow> drop p full = t \<Longrightarrow>
     splice full p (\<lambda>mt. Inr w) (match_iter (Plus (Lit w)) caps0 False pv p t)
       = Inr (squeeze w t)"
proof (induction "length t" arbitrary: t p pv rule: less_induct)
  case less
  let ?r = "Plus (Lit w)"
  show ?case
  proof (cases "take (length w) t = w")
    case True
    from plus_lit_attempt_Some[OF less.prems(1) True, of caps0 pv] obtain e
      where a: "attempt ?r caps0 False pv t = Some e"
        and sq: "squeeze w t = w @ squeeze w (rest e)" by blast
    let ?mt = "mk_match p t e"
    have sf: "search_from ?r caps0 False pv p t = Some (?mt, e)"
      using a by (cases t) simp_all
    from ms_consumes[OF attempt_in_ms[OF a]] less.prems(1) have pos: "0 < pos e" by simp
    from attempt_rest[OF a] have re: "rest e = drop (pos e) t" and le: "pos e \<le> length t" by simp_all
    from re le pos have shorter: "length (rest e) < length t" by simp
    have span: "m_start ?mt = p" "m_end ?mt = p + pos e" by (simp_all add: mk_match_def)
    have mi: "match_iter ?r caps0 False pv p t
                = ?mt # match_iter ?r caps0 False (prev e) (p + pos e) (rest e)"
      using sf shorter pos span by (subst match_iter.simps) simp
    from less.prems(2,3) le have "p + pos e \<le> length full" by auto
    moreover from less.prems(3)[symmetric] re have "drop (p + pos e) full = rest e"
      by (simp add: add.commute)
    ultimately have "splice full (p + pos e) (\<lambda>mt. Inr w)
                       (match_iter ?r caps0 False (prev e) (p + pos e) (rest e))
                     = Inr (squeeze w (rest e))"
      using less.hyps[OF shorter less.prems(1)] by blast
    then show ?thesis by (simp add: mi span sq)
  next
    case False
    then have none: "attempt ?r caps0 False pv t = None" by (rule plus_lit_attempt_None)
    show ?thesis
    proof (cases t)
      case Nil
      with none less.prems(3) show ?thesis by (subst match_iter.simps) simp
    next
      case (Cons c s)
      from less.prems(1) have cons: "consumes ?r" by simp
      have mi: "match_iter ?r caps0 False pv p t = match_iter ?r caps0 False (Some c) (Suc p) s"
        unfolding Cons by (rule match_iter_skip[OF none[unfolded Cons] cons])
      from less.prems(3) Cons have p: "p < length full" and c: "full ! p = c"
        and d: "drop (Suc p) full = s"
        by (metis drop_eq_Nil list.distinct(1) not_le, metis nth_via_drop, metis drop_Suc drop_drop list.sel(3) tl_drop plus_1_eq_Suc)
      from p have "Suc p \<le> length full" by simp
      from less.hyps[OF _ less.prems(1) this d, of "Some c"] Cons
      have ih: "splice full (Suc p) (\<lambda>mt. Inr w) (match_iter ?r caps0 False (Some c) (Suc p) s)
                  = Inr (squeeze w s)" by simp
      from splice_shift[OF match_iter_sorted p ih] c
      have "splice full p (\<lambda>mt. Inr w) (match_iter ?r caps0 False (Some c) (Suc p) s)
              = Inr (c # squeeze w s)" by simp
      moreover from False Cons less.prems(1) have "squeeze w t = c # squeeze w s"
        by (simp add: squeeze_pass)
      ultimately show ?thesis by (simp add: mi)
    qed
  qed
qed

lemma transpile_import_line_parts:
  "transpile_import_line = ''from qiskit import transpile'' @ [newline]"
  "newline \<notin> set ''from qiskit import transpile''"
  "transpile_import_line \<noteq> []"
  by (simp_all add: transpile_import_line_def newline_def)

lemma collapse_is_squeeze:
  "collapse_import_lines code = Inr (squeeze transpile_import_line code)"
  unfolding collapse_import_lines_def re_sub_def finditer_def repeated_import_line_def
  using sub_plus_lit[of transpile_import_line 0 code code] transpile_import_line_parts(3)
  by simp

lemma collapse_no_double:
  "collapse_import_lines code = Inr out \<Longrightarrow>
     \<not> py_in (transpile_import_line @ transpile_import_line) out"
  using squeeze_no_double[OF transpile_import_line_parts(2,1)]
  by (auto simp: collapse_is_squeeze)

lemma collapse_id:
  "\<not> py_in (transpile_import_line @ transpile_import_line) code \<Longrightarrow> collapse_import_lines code = Inr code"
  by (simp add: collapse_is_squeeze squeeze_id transpile_import_line_parts(3))

subsection \<open>No stage raises\<close>

lemma splice_total:
  "(\<And>mt. mt \<in> set mts \<Longrightarrow> \<exists>s. repl mt = Inr s) \<Longrightarrow> \<exists>out. splice full i repl mts = Inr out"
proof (induction mts arbitrary: i)
  case Nil
  show ?case by simp
next
  case (Cons mt mts)
  from Cons.prems[of mt] obtain s where s: "repl mt = Inr s" by auto
  from Cons.IH[of "m_end mt"] Cons.prems obtain out
    where "splice full (m_end mt) repl mts = Inr out" by auto
  with s show ?case by simp
qed

lemma match_end_state:
  assumes "mt \<in> set (finditer r t)"
  shows "\<exists>q t' e pv. mt = mk_match q t' e \<and> e \<in> set (ms r (MState pv t' 0 (no_groups r)))
           \<and> length (caps e) = Suc (ngroups r)"
proof -
  from assms obtain adv pv q t' e
    where a: "attempt r (no_groups r) adv pv t' = Some e" and mt: "mt = mk_match q t' e"
    unfolding finditer_def by (blast dest: match_iter_attempt)
  from attempt_in_ms[OF a] have e: "e \<in> set (ms r (MState pv t' 0 (no_groups r)))" .
  from ms_follows[OF e] have "length (caps e) = Suc (ngroups r)"
    by (auto simp: follows_def no_groups_def)
  with mt e show ?thesis by blast
qed

lemma match_group_set:
  assumes "mt \<in> set (finditer r t)" "sets_group r i" "0 < i" "i \<le> ngroups r"
  shows "group mt i \<noteq> None"
proof -
  from match_end_state[OF assms(1)] obtain q t' e pv
    where mt: "mt = mk_match q t' e" and e: "e \<in> set (ms r (MState pv t' 0 (no_groups r)))"
      and len: "length (caps e) = Suc (ngroups r)" by blast
  from assms(4) have "i < length (caps (MState pv t' 0 (no_groups r)))"
    by (simp add: no_groups_def)
  from ms_sets[OF e assms(2) this] obtain ab where "caps e ! i = Some ab" by auto
  moreover obtain a b where "ab = (a, b)" by (cases ab)
  ultimately have "span_text t' (caps e ! i) \<noteq> None" by simp
  with assms(3,4) len show ?thesis by (simp add: mt group_mk_match)
qed

lemma match_group_zero:
  assumes "mt \<in> set (finditer r t)"
  shows "group mt 0 \<noteq> None"
proof -
  from match_end_state[OF assms] obtain q t' e pv
    where mt: "mt = mk_match q t' e" and len: "length (caps e) = Suc (ngroups r)" by blast
  then show ?thesis by (simp add: group_def mk_match_def)
qed

lemma import_pattern_group:
  "sets_group (import_pattern symb) 1" "ngroups (import_pattern symb) = 1"
  by (simp_all add: import_pattern_def spaces1_def not_semi_nl_def)

lemma import_rules_total:
  "\<exists>out. rule_a code = Inr out" "\<exists>out. rule_b code = Inr out" "\<exists>out. rule_c code = Inr out"
proof -
  have g: "group mt 1 \<noteq> None" if "mt \<in> set (finditer (import_pattern symb) t)" for mt symb t
    using match_group_set[OF that import_pattern_group(1)] by (simp add: import_pattern_group(2))
  show "\<exists>out. rule_a code = Inr out"
    unfolding rule_a_def re_sub_def aer_import_pattern_def
    by (rule splice_total) (auto dest!: g simp: fix_aer_import_def Let_def)
  show "\<exists>out. rule_b code = Inr out"
    unfolding rule_b_def re_sub_def basicaer_import_pattern_def
    by (rule splice_total) (auto dest!: g simp: fix_basicaer_import_def Let_def)
  show "\<exists>out. rule_c code = Inr out"
    unfolding rule_c_def re_sub_def execute_import_pattern_def
    by (rule splice_total) (auto dest!: g simp: fix_execute_import_def Let_def)
qed

lemma simulator_rules_total:
  "\<exists>out. fix_basicaer_qasm code = Inr out" "\<exists>out. fix_aer_qasm code = Inr out"
  unfolding fix_basicaer_qasm_def fix_aer_qasm_def re_sub_def
  by (auto intro: splice_total)

lemma ensure_transpile_import_total: "\<exists>out. ensure_transpile_import code = Inr out"
proof -
  have s: "sets_group qiskit_import_list 1" "ngroups qiskit_import_list = 1"
    by (simp_all add: qiskit_import_list_def spaces1_def spaces0_def not_comma_nl_def)
  have g: "\<exists>s. add_transpile mt = Inr s" if "mt \<in> set (finditer qiskit_import_list t)" for mt t
    using match_group_set[OF that s(1)] by (auto simp: s(2) add_transpile_def)
  have "\<exists>out. re_sub qiskit_import_list add_transpile code 1 = Inr out"
    unfolding re_sub_def by (rule splice_total) (auto dest: in_set_takeD intro: g)
  then show ?thesis by (simp add: ensure_transpile_import_def)
qed

lemma dedup_in_list_total: "\<exists>out. dedup_in_list code = Inr out"
  unfolding dedup_in_list_def re_sub_def
  by (rule splice_total) (auto dest!: match_group_zero simp: drop_second_transpile_def)

lemma chain_total:
  "(\<And>f x. f \<in> set fs \<Longrightarrow> \<exists>y. f x = Inr y) \<Longrightarrow> \<exists>y. chain fs x = Inr y"
proof (induction fs arbitrary: x)
  case Nil
  show ?case by simp
next
  case (Cons f fs)
  from Cons.prems[of f x] obtain y where "f x = Inr y" by auto
  moreover from Cons.IH[of y] Cons.prems obtain z where "chain fs y = Inr z" by auto
  ultimately show ?case by simp
qed

lemma chain_append:
  "chain (fs @ [g]) x = (case chain fs x of Inl err \<Rightarrow> Inl err | Inr y \<Rightarrow> g y)"
  by (induction fs arbitrary: x) (auto split: sum.splits)

lemma fix_qiskit_code_total: "\<exists>out. fix_qiskit_code code = Inr out"
  unfolding fix_qiskit_code_def
  by (rule chain_total)
     (auto simp: import_rules_total simulator_rules_total ensure_transpile_import_total
        dedup_in_list_total rewrite_calls_stage_def collapse_is_squeeze)

lemma fix_qiskit_code_last:
  "\<exists>mid. fix_qiskit_code code = collapse_import_lines mid"
proof -
  let ?fs = "[rule_a, rule_b, rule_c, fix_basicaer_qasm, fix_aer_qasm, ensure_transpile_import,
              rewrite_calls_stage, dedup_in_list]"
  have "\<exists>mid. chain ?fs (add_banner code) = Inr mid"
    by (rule chain_total)
       (auto simp: import_rules_total simulator_rules_total ensure_transpile_import_total
          dedup_in_list_total rewrite_calls_stage_def)
  then obtain mid where "chain ?fs (add_banner code) = Inr mid" ..
  then have "chain (?fs @ [collapse_import_lines]) (add_banner code) = collapse_import_lines mid"
    by (simp only: chain_append sum.case)
  then show ?thesis by (auto simp: fix_qiskit_code_def)
qed

lemma re_sub_no_match: "re_search r t = None \<Longrightarrow> re_sub r repl t n = Inr t"
proof -
  assume "re_search r t = None"
  then have "search_from r (no_groups r) False None 0 t = None" by (simp add: re_search_def)
  then have "finditer r t = []" unfolding finditer_def by (subst match_iter.simps) simp
  then show ?thesis by (simp add: re_sub_def)
qed

subsection \<open>Dropping one of two copies, and the stages in sequence\<close>

lemma squeeze_drop_double:
  assumes "d \<notin> set v" "w = v @ [d]"
  shows "squeeze w (a @ w @ w @ b) = squeeze w (a @ w @ b)"
proof (induction "length a" arbitrary: a rule: less_induct)
  case less
  let ?n = "length w"
  from assms have w: "w \<noteq> []" by simp
  have over: "take ?n (u @ w @ x) = take ?n (u @ w)" for u x
    using take_over[of w "u @ w" x] by simp
  show ?case
  proof (cases a)
    case Nil
    have "squeeze w (w @ (w @ b)) = squeeze w (w @ b)" by (rule squeeze_run[OF w]) simp
    with Nil show ?thesis by simp
  next
    case (Cons c a')
    let ?X = "a @ w @ w @ b"
    let ?Y = "a @ w @ b"
    have same: "take ?n ?X = take ?n ?Y" using over[of a "w @ b"] over[of a b] by simp
    show ?thesis
    proof (cases "take ?n ?X = w")
      case False
      with same have fy: "take ?n ?Y \<noteq> w" by simp
      from False Cons have "squeeze w ?X = c # squeeze w (a' @ w @ w @ b)"
        using squeeze_pass[OF w, of c "a' @ w @ w @ b"] by simp
      moreover from fy Cons have "squeeze w ?Y = c # squeeze w (a' @ w @ b)"
        using squeeze_pass[OF w, of c "a' @ w @ b"] by simp
      moreover from less(1)[of a'] Cons
      have "squeeze w (a' @ w @ w @ b) = squeeze w (a' @ w @ b)" by simp
      ultimately show ?thesis by simp
    next
      case True
      have len: "?n \<le> length a"
      proof (rule ccontr)
        assume short: "\<not> ?n \<le> length a"
        with Cons assms have j: "0 < length a" "length a \<le> length v" by simp_all
        from True obtain r where X: "?X = w @ r" by (metis append_take_drop_id)
        have "drop (length a) w @ r = drop (length a) (w @ r)" using short by simp
        also have "\<dots> = drop (length a) ?X" by (simp only: X)
        also have "\<dots> = w @ w @ b" by simp
        finally have "take ?n (drop (length a) w @ r) = w" by simp
        with no_overlap[OF assms(1) j, of r] assms(2) show False by simp
      qed
      define a'' where "a'' = drop ?n a"
      from True len have "take ?n a = w" by simp
      then have a: "a = w @ a''" unfolding a''_def by (metis append_take_drop_id)
      with w have la: "length a'' < length a" by simp
      have ih: "squeeze w (a'' @ w @ w @ b) = squeeze w (a'' @ w @ b)" by (rule less(1)[OF la])
      have same2: "take ?n (a'' @ w @ w @ b) = take ?n (a'' @ w @ b)"
        using over[of a'' "w @ b"] over[of a'' b] by simp
      show ?thesis
      proof (cases "take ?n (a'' @ w @ b) = w")
        case run: True
        then have "squeeze w (w @ (a'' @ w @ b)) = squeeze w (a'' @ w @ b)"
          by (rule squeeze_run[OF w])
        moreover from run same2
        have "squeeze w (w @ (a'' @ w @ w @ b)) = squeeze w (a'' @ w @ w @ b)"
          by (intro squeeze_run[OF w]) simp
        ultimately show ?thesis using ih a by simp
      next
        case keep: False
        then have "squeeze w (w @ (a'' @ w @ b)) = w @ squeeze w (a'' @ w @ b)"
          by (rule squeeze_keep[OF w])
        moreover from keep same2
        have "squeeze w (w @ (a'' @ w @ w @ b)) = w @ squeeze w (a'' @ w @ w @ b)"
          by (intro squeeze_keep[OF w]) simp
        ultimately show ?thesis using ih a by simp
      qed
    qed
  qed
qed

lemma chain_split:
  "chain (fs @ gs) x = (case chain fs x of Inl err \<Rightarrow> Inl err | Inr y \<Rightarrow> chain gs y)"
  by (induction fs arbitrary: x) (auto split: sum.splits)

lemma early_stages_total:
  "\<exists>mid. chain [rule_a, rule_b, rule_c, fix_basicaer_qasm, fix_aer_qasm,
                  ensure_transpile_import] (add_banner code) = Inr mid"
  by (rule chain_total)
     (auto simp: import_rules_total simulator_rules_total ensure_transpile_import_total)

lemma stages_before_collapse_total:
  "\<exists>mid. chain [rule_a, rule_b, rule_c, fix_basicaer_qasm, fix_aer_qasm,
                  ensure_transpile_import, rewrite_calls_stage, dedup_in_list]
             (add_banner code) = Inr mid"
  by (rule chain_total)
     (auto simp: import_rules_total simulator_rules_total ensure_transpile_import_total
        dedup_in_list_total rewrite_calls_stage_def)

section \<open>The import rules\<close>

text \<open>
  Claim C9 asks that the three import rules, run in the order A, B, C, handle an import
  line that names more than one legacy symbol. It does not hold when the line ends in a
  comment. On \<open>from qiskit import Aer, BasicAer  # providers\<close> rule A takes \<open>Aer\<close> out, but
  for rule B the item that is left is \<open>BasicAer  # providers\<close>, not \<open>BasicAer\<close>: it stays,
  and the output still imports \<open>BasicAer\<close> from \<open>qiskit\<close>. On
  \<open>from qiskit import Aer, execute  # c\<close> rule C keeps \<open>execute  # c\<close> in the same way and
  appends \<open>transpile\<close> behind the comment.
\<close>

theorem two_legacy_symbols_with_comment:
  "rule_a ''from qiskit import Aer, BasicAer  # providers\<newline>''
     = Inr ''from qiskit import BasicAer  # providers\<newline>from qiskit_aer import Aer\<newline>''
   \<and> rule_b ''from qiskit import BasicAer  # providers\<newline>from qiskit_aer import Aer\<newline>''
     = Inr ''from qiskit import BasicAer  # providers\<newline>from qiskit.providers.basic_provider import BasicProvider\<newline>from qiskit_aer import Aer\<newline>''
   \<and> fix_qiskit_code ''from qiskit import Aer, BasicAer  # providers\<newline>''
     = Inr (banner @ ''from qiskit import BasicAer  # providers\<newline>from qiskit.providers.basic_provider import BasicProvider\<newline>from qiskit_aer import Aer\<newline>'')
   \<and> fix_qiskit_code ''from qiskit import Aer, execute  # c\<newline>''
     = Inr (banner @ ''from qiskit import execute  # c, transpile\<newline>from qiskit_aer import Aer\<newline>'')"
  apply (intro conjI)
  subgoal by code_simp
  subgoal by code_simp
  subgoal by code_simp
  subgoal by code_simp
  done

text \<open>
  The order of the stages as the driver runs them, and the line with two legacy symbols
  and no comment, on which the rules do what is asked.
\<close>

lemma import_rules_in_order:
  "fix_qiskit_code code =
     (case rule_a (add_banner code) of
        Inl err \<Rightarrow> Inl err
      | Inr code1 \<Rightarrow>
          (case rule_b code1 of
             Inl err \<Rightarrow> Inl err
           | Inr code2 \<Rightarrow>
               (case rule_c code2 of
                  Inl err \<Rightarrow> Inl err
                | Inr code3 \<Rightarrow>
                    chain [fix_basicaer_qasm, fix_aer_qasm, ensure_transpile_import,
                           rewrite_calls_stage, dedup_in_list, collapse_import_lines] code3)))
   \<and> rule_a ''from qiskit import Aer, BasicAer''
       = Inr ''from qiskit import BasicAer\<newline>from qiskit_aer import Aer''
   \<and> rule_b ''from qiskit import BasicAer\<newline>from qiskit_aer import Aer''
       = Inr ''from qiskit.providers.basic_provider import BasicProvider\<newline>from qiskit_aer import Aer''
   \<and> fix_qiskit_code ''from qiskit import Aer, BasicAer''
       = Inr (banner @ ''from qiskit.providers.basic_provider import BasicProvider\<newline>from qiskit_aer import Aer'')"
  apply (intro conjI)
  subgoal by (simp add: fix_qiskit_code_def split: sum.splits)
  subgoal by code_simp
  subgoal by code_simp
  subgoal by code_simp
  done

section \<open>The symbols that stay on an import of \<open>Aer\<close>\<close>

text \<open>
  Claim C5 asks that rule A, on a list that holds \<open>Aer\<close> and N other symbols, leaves a
  first line with those N symbols and a second line that imports \<open>Aer\<close> from
  \<open>qiskit_aer\<close>, and the second line alone when N is 0. It does not hold when a comment
  follows \<open>Aer\<close>: the item \<open>Aer  # sim\<close> is not the string \<open>Aer\<close>, so it is kept as if it
  were another symbol. With N = 0 two lines come out and \<open>Aer\<close> is still imported from
  \<open>qiskit\<close>; with \<open>QuantumCircuit\<close> in front, the first line still names \<open>Aer\<close>.
\<close>

theorem aer_import_with_comment:
  "finditer aer_import_pattern ''from qiskit import Aer  # sim''
     = [Match 0 29 [Some ''from qiskit import Aer  # sim'', Some ''Aer  # sim'']]
   \<and> fix_aer_import (Match 0 29 [Some ''from qiskit import Aer  # sim'', Some ''Aer  # sim''])
     = Inr ''from qiskit import Aer  # sim\<newline>from qiskit_aer import Aer''
   \<and> rule_a ''from qiskit import Aer  # sim''
     = Inr ''from qiskit import Aer  # sim\<newline>from qiskit_aer import Aer''
   \<and> rule_a ''from qiskit import QuantumCircuit, Aer  # simulator''
     = Inr ''from qiskit import QuantumCircuit, Aer  # simulator\<newline>from qiskit_aer import Aer''
   \<and> fix_qiskit_code ''from qiskit import QuantumCircuit, Aer  # simulator\<newline>''
     = Inr (banner @ ''from qiskit import QuantumCircuit, Aer  # simulator\<newline>from qiskit_aer import Aer\<newline>'')"
  apply (intro conjI)
  subgoal by code_simp
  subgoal by code_simp
  subgoal by code_simp
  subgoal by code_simp
  subgoal by code_simp
  done

text \<open>
  What the callback of rule A does in general: the list is cut at the commas, each item
  is stripped of white space, and the items other than the string \<open>Aer\<close> are kept in
  their order. An item is whatever stands between two commas, a name with a comment
  behind it included.
\<close>

lemma aer_import_keeps_other_symbols:
  assumes "group mt 1 = Some (py_join '','' (map padded es))"
    and "es \<noteq> []" and "list_all import_entry es"
  shows "fix_aer_import mt =
           Inr (if filter (\<lambda>s. s \<noteq> ''Aer'') (map entry_name es) = []
                then ''from qiskit_aer import Aer''
                else ''from qiskit import ''
                     @ py_join '', '' (filter (\<lambda>s. s \<noteq> ''Aer'') (map entry_name es))
                     @ [newline] @ ''from qiskit_aer import Aer'')"
  using assms(1) import_items_padded[OF assms(2,3)]
  by (simp add: fix_aer_import_def Let_def)

lemma aer_import_of_plain_names:
  "finditer aer_import_pattern ''from qiskit import QuantumCircuit, Aer, transpile''
     = [Match 0 49 [Some ''from qiskit import QuantumCircuit, Aer, transpile'',
                    Some ''QuantumCircuit, Aer, transpile'']]
   \<and> fix_aer_import (Match 0 49 [Some ''from qiskit import QuantumCircuit, Aer, transpile'',
                                   Some ''QuantumCircuit, Aer, transpile''])
     = Inr ''from qiskit import QuantumCircuit, transpile\<newline>from qiskit_aer import Aer''
   \<and> rule_a ''from qiskit import QuantumCircuit, Aer, transpile''
     = Inr ''from qiskit import QuantumCircuit, transpile\<newline>from qiskit_aer import Aer''
   \<and> rule_a ''from qiskit import Aer'' = Inr ''from qiskit_aer import Aer''"
proof -
  let ?mt = "Match 0 49 [Some ''from qiskit import QuantumCircuit, Aer, transpile'',
                         Some ''QuantumCircuit, Aer, transpile'']"
  let ?es = "[([], ''QuantumCircuit'', []), ('' '', ''Aer'', []), ('' '', ''transpile'', [])]"
  have f: "finditer aer_import_pattern ''from qiskit import QuantumCircuit, Aer, transpile'' = [?mt]"
    by code_simp
  have g: "group ?mt 1 = Some (py_join '','' (map padded ?es))"
    by (simp add: group_def padded_def)
  have e: "list_all import_entry ?es" by code_simp
  from aer_import_keeps_other_symbols[OF g _ e]
  have c: "fix_aer_import ?mt
             = Inr ''from qiskit import QuantumCircuit, transpile\<newline>from qiskit_aer import Aer''"
    by (simp add: entry_name_def newline_def)
  have r1: "rule_a ''from qiskit import QuantumCircuit, Aer, transpile''
              = Inr ''from qiskit import QuantumCircuit, transpile\<newline>from qiskit_aer import Aer''"
    by code_simp
  have r2: "rule_a ''from qiskit import Aer'' = Inr ''from qiskit_aer import Aer''"
    by code_simp
  from f c r1 r2 show ?thesis by simp
qed

section \<open>Several call sites\<close>

text \<open>
  Claim C6 asks that in the output the rewritten blocks stand in the order of their call
  sites with the text between and around them as it was in the input. As stated it does
  not hold: the stages that run before and after the loop change that text too. Here two
  import lines stand between two call sites, and the last substitution merges them.
\<close>

theorem text_between_call_sites_changes:
  "finditer execute_pattern
     ''a = execute(q, b)\<newline>from qiskit import transpile\<newline>from qiskit import transpile\<newline>c = execute(q, b)\<newline>''
     = [Match 0 17 [Some ''a = execute(q, b)'', Some ''a'', Some ''q'', None, Some ''b'', None],
        Match 76 93 [Some ''c = execute(q, b)'', Some ''c'', Some ''q'', None, Some ''b'', None]]
   \<and> take (76 - 17) (drop 17
        ''a = execute(q, b)\<newline>from qiskit import transpile\<newline>from qiskit import transpile\<newline>c = execute(q, b)\<newline>'')
     = ''\<newline>from qiskit import transpile\<newline>from qiskit import transpile\<newline>''
   \<and> fix_qiskit_code
        ''a = execute(q, b)\<newline>from qiskit import transpile\<newline>from qiskit import transpile\<newline>c = execute(q, b)\<newline>''
     = Inr (banner @ ''q_transpiled = transpile(q)\<newline>a = b.run(q_transpiled)\<newline>from qiskit import transpile\<newline>q_transpiled = transpile(q)\<newline>c = b.run(q_transpiled)\<newline>'')
   \<and> \<not> py_in ''\<newline>from qiskit import transpile\<newline>from qiskit import transpile\<newline>''
          (banner @ ''q_transpiled = transpile(q)\<newline>a = b.run(q_transpiled)\<newline>from qiskit import transpile\<newline>q_transpiled = transpile(q)\<newline>c = b.run(q_transpiled)\<newline>'')"
  apply (intro conjI)
  subgoal by code_simp
  subgoal by code_simp
  subgoal by code_simp
  subgoal by code_simp
  done

text \<open>
  Claim C6, amended. For every input the stages before the loop return a buffer. The
  call sites are the matches of the \<open>execute\<close> pattern in that buffer, in increasing order
  of offset and without overlap. Replacing them from the last to the first gives that
  buffer rebuilt from left to right: each call site replaced where it stood, the blocks in
  the order of their call sites, the text before, between and after them copied as it
  was. The output of the fixer is this rebuilt buffer after the two substitutions that
  clean up duplicate imports.
\<close>

theorem call_sites_in_final_output:
  "\<exists>mid. chain [rule_a, rule_b, rule_c, fix_basicaer_qasm, fix_aer_qasm,
                  ensure_transpile_import] (add_banner code) = Inr mid
         \<and> sorted_spans 0 (length mid) (finditer execute_pattern mid)
         \<and> foldl replace_span mid (rev (finditer execute_pattern mid))
             = rebuild mid 0 (finditer execute_pattern mid)
         \<and> fix_qiskit_code code
             = chain [dedup_in_list, collapse_import_lines]
                 (rebuild mid 0 (finditer execute_pattern mid))"
proof -
  let ?fs = "[rule_a, rule_b, rule_c, fix_basicaer_qasm, fix_aer_qasm, ensure_transpile_import]"
  from early_stages_total obtain mid where mid: "chain ?fs (add_banner code) = Inr mid" ..
  have rb: "foldl replace_span mid (rev (finditer execute_pattern mid))
              = rebuild mid 0 (finditer execute_pattern mid)"
    using foldl_replace_span[OF finditer_sorted, of mid execute_pattern] by simp
  have "fix_qiskit_code code
          = chain (?fs @ [rewrite_calls_stage, dedup_in_list, collapse_import_lines]) (add_banner code)"
    by (simp add: fix_qiskit_code_def)
  also have "\<dots> = chain [rewrite_calls_stage, dedup_in_list, collapse_import_lines] mid"
    by (simp only: chain_split mid sum.case)
  also have "\<dots> = chain [dedup_in_list, collapse_import_lines]
                     (foldl replace_span mid (rev (finditer execute_pattern mid)))"
    by (simp add: rewrite_calls_stage_def rewrite_calls_def)
  finally have "fix_qiskit_code code
                  = chain [dedup_in_list, collapse_import_lines]
                      (rebuild mid 0 (finditer execute_pattern mid))"
    by (simp only: rb)
  with mid rb finditer_sorted[of mid execute_pattern] show ?thesis by blast
qed

theorem call_sites_in_final_output_witness:
  "chain [rule_a, rule_b, rule_c, fix_basicaer_qasm, fix_aer_qasm, ensure_transpile_import]
     (add_banner ''a = execute(q, b)\<newline>print(a)\<newline>c = execute(q2, Aer.get_backend('sim'), shots=5)\<newline>'')
     = Inr (transpile_import_line
            @ ''a = execute(q, b)\<newline>print(a)\<newline>c = execute(q2, Aer.get_backend('sim'), shots=5)\<newline>'')
   \<and> fix_qiskit_code ''a = execute(q, b)\<newline>print(a)\<newline>c = execute(q2, Aer.get_backend('sim'), shots=5)\<newline>''
     = Inr ''from qiskit import transpile\<newline>q_transpiled = transpile(q)\<newline>a = b.run(q_transpiled)\<newline>print(a)\<newline>q2_transpiled = transpile(q2)\<newline>simulator = Aer.get_backend('sim')\<newline>c = simulator.run(q2_transpiled, shots=5)\<newline>''"
proof -
  let ?x = "''a = execute(q, b)\<newline>print(a)\<newline>c = execute(q2, Aer.get_backend('sim'), shots=5)\<newline>''"
  let ?mid = "transpile_import_line @ ?x"
  have m: "chain [rule_a, rule_b, rule_c, fix_basicaer_qasm, fix_aer_qasm, ensure_transpile_import]
             (add_banner ?x) = Inr ?mid"
    by code_simp
  from call_sites_in_final_output[of ?x] m
  have "fix_qiskit_code ?x
          = chain [dedup_in_list, collapse_import_lines]
              (rebuild ?mid 0 (finditer execute_pattern ?mid))" by auto
  also have "\<dots> = Inr ''from qiskit import transpile\<newline>q_transpiled = transpile(q)\<newline>a = b.run(q_transpiled)\<newline>print(a)\<newline>q2_transpiled = transpile(q2)\<newline>simulator = Aer.get_backend('sim')\<newline>c = simulator.run(q2_transpiled, shots=5)\<newline>''"
    by code_simp
  finally show ?thesis using m by (simp only: simp_thms)
qed

section \<open>The replacement of one call site\<close>

text \<open>
  Claim C4 asks that every legacy call \<open>result = execute(circuit, backend)\<close> is replaced by
  a compile line and a run line. It does not hold. When \<open>BasicAer\<close> is imported, the stage
  before the loop turns \<open>Aer.get_backend('qasm_simulator')\<close> into a call of
  \<open>BasicProvider().get_backend\<close>, which the \<open>execute\<close> pattern does not accept as a backend;
  the call of \<open>execute\<close> is then left in the output, while rule C has taken \<open>execute\<close> out
  of the import.
\<close>

theorem legacy_call_left_in_output:
  "finditer execute_pattern
     ''from qiskit import Aer, BasicAer, execute\<newline>result = execute(qc, Aer.get_backend('qasm_simulator'), shots=1000)\<newline>''
     = [Match 42 109 [Some ''result = execute(qc, Aer.get_backend('qasm_simulator'), shots=1000)'',
                      Some ''result'', Some ''qc'', Some ''qasm_simulator'', None, Some ''1000'']]
   \<and> fix_qiskit_code
        ''from qiskit import Aer, BasicAer, execute\<newline>result = execute(qc, Aer.get_backend('qasm_simulator'), shots=1000)\<newline>''
     = Inr (banner @ ''from qiskit import transpile\<newline>from qiskit.providers.basic_provider import BasicProvider\<newline>from qiskit_aer import Aer\<newline>result = execute(qc, ''
            @ basic_simulator_call @ '', shots=1000)\<newline>'')"
  apply (intro conjI)
  subgoal by code_simp
  subgoal by code_simp
  done

text \<open>
  For the matches that the loop does find, the text that replaces a match is the compile
  line followed by the run line: on the backend variable when one was captured, and
  otherwise on a backend constructed from the captured name; \<open>, shots=n\<close> follows exactly
  when a shot count was captured.
\<close>

lemma call_site_replacement:
  assumes "mt \<in> set (finditer execute_pattern code)"
  shows "\<exists>result circuit run.
           group mt 1 = Some result \<and> group mt 2 = Some circuit
         \<and> replacement mt = circuit @ ''_transpiled = transpile('' @ circuit @ '')'' @ [newline]
                             @ run @ shots_arg (group mt 5) @ '')''
         \<and> ((\<exists>backend. group mt 4 = Some backend
                \<and> run = result @ '' = '' @ backend @ ''.run('' @ circuit @ ''_transpiled'')
            \<or> (group mt 4 = None
                \<and> (\<exists>name. group mt 3 = Some name
                     \<and> run = ''simulator = Aer.get_backend('' @ [squote] @ name @ [squote] @ '')''
                             @ [newline] @ result @ '' = simulator.run('' @ circuit
                             @ ''_transpiled'')))"
proof -
  note g = execute_match_groups[OF assms]
  from g(1,2) obtain result circuit where rc: "group mt 1 = Some result" "group mt 2 = Some circuit"
    by auto
  have sh: "(if py_truthy (group mt 5) then '', shots='' @ py_format (group mt 5) else [])
            = shots_arg (group mt 5)"
    using g(4)[of 5] by (cases "group mt 5") auto
  from g(3) show ?thesis
  proof
    assume "group mt 3 \<noteq> None \<and> group mt 4 = None"
    then obtain name where n: "group mt 3 = Some name" "group mt 4 = None" by auto
    show ?thesis
      using rc n by (simp add: replacement_def Let_def sh)
  next
    assume "group mt 3 = None \<and> group mt 4 \<noteq> None"
    then obtain backend where b: "group mt 4 = Some backend" by auto
    with g(4)[of 4] have "backend \<noteq> []" by auto
    then show ?thesis
      using rc b by (simp add: replacement_def Let_def sh)
  qed
qed

lemma call_site_replacement_example:
  "finditer execute_pattern ''result = execute(qc, backend, shots=1000)''
     = [Match 0 41 [Some ''result = execute(qc, backend, shots=1000)'', Some ''result'',
                    Some ''qc'', None, Some ''backend'', Some ''1000'']]
   \<and> replacement (Match 0 41 [Some ''result = execute(qc, backend, shots=1000)'', Some ''result'',
                                Some ''qc'', None, Some ''backend'', Some ''1000''])
     = ''qc_transpiled = transpile(qc)\<newline>result = backend.run(qc_transpiled, shots=1000)''"
proof -
  let ?code = "''result = execute(qc, backend, shots=1000)''"
  let ?mt = "Match 0 41 [Some ''result = execute(qc, backend, shots=1000)'', Some ''result'',
                         Some ''qc'', None, Some ''backend'', Some ''1000'']"
  have f: "finditer execute_pattern ?code = [?mt]" by code_simp
  then have "?mt \<in> set (finditer execute_pattern ?code)" by simp
  from call_site_replacement[OF this]
  have "replacement ?mt
          = ''qc_transpiled = transpile(qc)\<newline>result = backend.run(qc_transpiled, shots=1000)''"
    by (auto simp: group_def newline_def)
  with f show ?thesis by simp
qed

section \<open>Named backends\<close>



text \<open>Two call sites with named backends in one buffer: both blocks use \<open>simulator\<close>.\<close>

lemma two_named_backends:
  "rewrite_calls ''a = execute(c1, Aer.get_backend('x'))\<newline>b = execute(c2, Aer.get_backend('y'), shots=5)''
     = ''c1_transpiled = transpile(c1)\<newline>simulator = Aer.get_backend('x')\<newline>a = simulator.run(c1_transpiled)\<newline>c2_transpiled = transpile(c2)\<newline>simulator = Aer.get_backend('y')\<newline>b = simulator.run(c2_transpiled, shots=5)''"
  by code_simp

section \<open>Running the fixer on its own output\<close>

text \<open>
  Claim C1 asks that a second run changes nothing. It does not hold. An import of \<open>Aer\<close>
  with a trailing comment keeps its item, because the item with the comment is not the
  string \<open>Aer\<close>, so every run finds the line again and adds one more line
  \<open>from qiskit_aer import Aer\<close>. And a buffer without the word \<open>qiskit\<close> that holds a call of
  \<open>execute\<close> gets its installation comment only at the second run, once the first run has
  written \<open>from qiskit import transpile\<close> into it.
\<close>

theorem second_run_differs:
  "fix_qiskit_code ''from qiskit import Aer  # sim\<newline>''
     = Inr (banner @ ''from qiskit import Aer  # sim\<newline>from qiskit_aer import Aer\<newline>'')
   \<and> fix_qiskit_code (banner @ ''from qiskit import Aer  # sim\<newline>from qiskit_aer import Aer\<newline>'')
     = Inr (banner @ ''from qiskit import Aer  # sim\<newline>from qiskit_aer import Aer\<newline>from qiskit_aer import Aer\<newline>'')
   \<and> fix_qiskit_code ''result = execute(qc, backend)''
     = Inr ''from qiskit import transpile\<newline>qc_transpiled = transpile(qc)\<newline>result = backend.run(qc_transpiled)''
   \<and> fix_qiskit_code ''from qiskit import transpile\<newline>qc_transpiled = transpile(qc)\<newline>result = backend.run(qc_transpiled)''
     = Inr (banner @ ''from qiskit import transpile\<newline>qc_transpiled = transpile(qc)\<newline>result = backend.run(qc_transpiled)'')"
  apply (intro conjI)
  subgoal by code_simp
  subgoal by code_simp
  subgoal by code_simp
  subgoal by code_simp
  done

section \<open>How many imports of \<open>transpile\<close> the output holds\<close>

text \<open>
  Claim C2 asks for exactly one import of \<open>transpile\<close> in the output whenever the input
  holds a call of \<open>execute\<close>. It does not hold. When \<open>execute\<close> is imported on one line and
  \<open>transpile\<close> on another, the rule for \<open>execute\<close> adds \<open>transpile\<close> to the first line and the
  second line stays: two imports. When the first \<open>from qiskit import\<close> line carries the word
  \<open>transpile\<close> in a comment, the line is taken to import it already and nothing is added:
  no import, although the rewritten call uses \<open>transpile\<close>.
\<close>

theorem transpile_import_count:
  "re_search execute_pattern ''from qiskit import QuantumCircuit, execute\<newline>from qiskit import transpile\<newline>result = execute(qc, backend)\<newline>'' \<noteq> None
   \<and> fix_qiskit_code ''from qiskit import QuantumCircuit, execute\<newline>from qiskit import transpile\<newline>result = execute(qc, backend)\<newline>''
     = Inr (banner @ ''from qiskit import QuantumCircuit, transpile\<newline>from qiskit import transpile\<newline>qc_transpiled = transpile(qc)\<newline>result = backend.run(qc_transpiled)\<newline>'')
   \<and> transpile_imports (banner @ ''from qiskit import QuantumCircuit, transpile\<newline>from qiskit import transpile\<newline>qc_transpiled = transpile(qc)\<newline>result = backend.run(qc_transpiled)\<newline>'') = 2
   \<and> re_search execute_pattern ''from qiskit import QuantumCircuit  # transpile later\<newline>result = execute(qc, backend)\<newline>'' \<noteq> None
   \<and> fix_qiskit_code ''from qiskit import QuantumCircuit  # transpile later\<newline>result = execute(qc, backend)\<newline>''
     = Inr (banner @ ''from qiskit import QuantumCircuit  # transpile later\<newline>qc_transpiled = transpile(qc)\<newline>result = backend.run(qc_transpiled)\<newline>'')
   \<and> transpile_imports (banner @ ''from qiskit import QuantumCircuit  # transpile later\<newline>qc_transpiled = transpile(qc)\<newline>result = backend.run(qc_transpiled)\<newline>'') = 0"
  apply (intro conjI)
  subgoal by code_simp
  subgoal by code_simp
  subgoal by code_simp
  subgoal by code_simp
  subgoal by code_simp
  subgoal by code_simp
  done

section \<open>Where a new import line is put\<close>

text \<open>
  Claim C7 asks that a new line \<open>from qiskit import transpile\<close> is put after the comment
  lines and import statements at the top of the buffer. It does not hold: the offset is
  the end of the last comment line anywhere in the buffer, and only import statements
  that start at or after that offset move it further. With a comment line below the call,
  the import is put below that comment, after the code that uses \<open>transpile\<close>.
\<close>

theorem import_after_last_comment:
  "re_search qiskit_import_prefix ''# demo\<newline>import numpy\<newline>r = execute(qc, b)\<newline># done\<newline>'' = None
   \<and> ensure_transpile_import ''# demo\<newline>import numpy\<newline>r = execute(qc, b)\<newline># done\<newline>''
     = Inr ''# demo\<newline>import numpy\<newline>r = execute(qc, b)\<newline># done\<newline>from qiskit import transpile\<newline>''
   \<and> fix_qiskit_code ''# demo\<newline>import numpy\<newline>r = execute(qc, b)\<newline># done\<newline>''
     = Inr ''# demo\<newline>import numpy\<newline>qc_transpiled = transpile(qc)\<newline>r = b.run(qc_transpiled)\<newline># done\<newline>from qiskit import transpile\<newline>''"
  apply (intro conjI)
  subgoal by code_simp
  subgoal by code_simp
  subgoal by code_simp
  done

section \<open>Repeated import lines\<close>

text \<open>
  Claim C8 asks that an input holding the line \<open>from qiskit import transpile\<close> more than
  once gives an output that holds it once. As stated it does not hold: only copies that
  follow one another are merged, and two copies with another line between them both stay.
\<close>

theorem separate_import_lines_stay:
  "occurrences transpile_import_line
     ''from qiskit import transpile\<newline>import os\<newline>from qiskit import transpile\<newline>'' = 2
   \<and> fix_qiskit_code ''from qiskit import transpile\<newline>import os\<newline>from qiskit import transpile\<newline>''
     = Inr (banner @ ''from qiskit import transpile\<newline>import os\<newline>from qiskit import transpile\<newline>'')
   \<and> occurrences transpile_import_line
         (banner @ ''from qiskit import transpile\<newline>import os\<newline>from qiskit import transpile\<newline>'') = 2"
  apply (intro conjI)
  subgoal by code_simp
  subgoal by code_simp
  subgoal by code_simp
  done

text \<open>
  Claim C8, amended. For every input the stages before the last substitution return a
  buffer, and the output of the fixer is that buffer with every run of consecutive
  copies of the line \<open>from qiskit import transpile\<close> cut down to one copy. Cutting down
  drops one of two copies that stand in a row, wherever they stand, and leaves a buffer
  without two copies in a row as it is; so the output never holds the line twice in a
  row, and copies that do not follow one another all stay.
\<close>

theorem import_line_runs_cut_to_one:
  "\<exists>mid. chain [rule_a, rule_b, rule_c, fix_basicaer_qasm, fix_aer_qasm,
                  ensure_transpile_import, rewrite_calls_stage, dedup_in_list]
             (add_banner code) = Inr mid
         \<and> fix_qiskit_code code = Inr (squeeze transpile_import_line mid)
         \<and> \<not> py_in (transpile_import_line @ transpile_import_line)
                (squeeze transpile_import_line mid)
         \<and> (\<forall>a b. squeeze transpile_import_line
                      (a @ transpile_import_line @ transpile_import_line @ b)
                    = squeeze transpile_import_line (a @ transpile_import_line @ b))
         \<and> (\<forall>t. \<not> py_in (transpile_import_line @ transpile_import_line) t
                  \<longrightarrow> squeeze transpile_import_line t = t)"
proof -
  let ?fs = "[rule_a, rule_b, rule_c, fix_basicaer_qasm, fix_aer_qasm,
              ensure_transpile_import, rewrite_calls_stage, dedup_in_list]"
  from stages_before_collapse_total obtain mid
    where mid: "chain ?fs (add_banner code) = Inr mid" ..
  have "fix_qiskit_code code = chain (?fs @ [collapse_import_lines]) (add_banner code)"
    by (simp add: fix_qiskit_code_def)
  also have "\<dots> = chain [collapse_import_lines] mid"
    by (simp only: chain_split mid sum.case)
  also have "\<dots> = collapse_import_lines mid"
    by (simp split: sum.splits)
  finally have out: "fix_qiskit_code code = Inr (squeeze transpile_import_line mid)"
    by (simp add: collapse_is_squeeze)
  note p = transpile_import_line_parts
  from mid out squeeze_no_double[OF p(2,1)] squeeze_drop_double[OF p(2,1)] squeeze_id[OF p(3)]
  show ?thesis by blast
qed

theorem import_line_runs_cut_to_one_witness:
  "chain [rule_a, rule_b, rule_c, fix_basicaer_qasm, fix_aer_qasm,
          ensure_transpile_import, rewrite_calls_stage, dedup_in_list]
     (add_banner ''from qiskit import transpile\<newline>from qiskit import transpile\<newline>x = 1\<newline>'')
     = Inr (banner @ ''from qiskit import transpile\<newline>from qiskit import transpile\<newline>x = 1\<newline>'')
   \<and> squeeze transpile_import_line
         (banner @ ''from qiskit import transpile\<newline>from qiskit import transpile\<newline>x = 1\<newline>'')
     = banner @ ''from qiskit import transpile\<newline>x = 1\<newline>''
   \<and> fix_qiskit_code ''from qiskit import transpile\<newline>from qiskit import transpile\<newline>x = 1\<newline>''
     = Inr (banner @ ''from qiskit import transpile\<newline>x = 1\<newline>'')"
proof -
  let ?x = "''from qiskit import transpile\<newline>from qiskit import transpile\<newline>x = 1\<newline>''"
  have m: "chain [rule_a, rule_b, rule_c, fix_basicaer_qasm, fix_aer_qasm,
                  ensure_transpile_import, rewrite_calls_stage, dedup_in_list] (add_banner ?x)
             = Inr (banner @ ?x)"
    by code_simp
  have s: "squeeze transpile_import_line (banner @ ?x)
             = banner @ ''from qiskit import transpile\<newline>x = 1\<newline>''"
    by code_simp
  from import_line_runs_cut_to_one[of ?x] m
  have "fix_qiskit_code ?x = Inr (squeeze transpile_import_line (banner @ ?x))" by auto
  with m s show ?thesis by (simp only: simp_thms)
qed

section \<open>Input with nothing to fix\<close>

text \<open>
  Claim C3 asks that an input with no legacy import, no legacy call and no legacy backend
  lookup comes back unchanged. As stated it does not hold: a buffer that mentions \<open>qiskit\<close>
  and not \<open>pip install qiskit-aer\<close> gets the installation comment in front.
\<close>

theorem banner_added_to_clean_input:
  "re_search aer_import_pattern ''import qiskit'' = None
   \<and> re_search basicaer_import_pattern ''import qiskit'' = None
   \<and> re_search execute_import_pattern ''import qiskit'' = None
   \<and> re_search basicaer_qasm_pattern ''import qiskit'' = None
   \<and> re_search aer_qasm_pattern ''import qiskit'' = None
   \<and> re_search execute_pattern ''import qiskit'' = None
   \<and> fix_qiskit_code ''import qiskit'' = Inr (banner @ ''import qiskit'')
   \<and> fix_qiskit_code ''import qiskit'' \<noteq> Inr ''import qiskit''"
  apply (intro conjI)
  subgoal by code_simp
  subgoal by code_simp
  subgoal by code_simp
  subgoal by code_simp
  subgoal by code_simp
  subgoal by code_simp
  subgoal by code_simp
  subgoal by code_simp
  done

text \<open>
  Claim C3, amended. An input comes back unchanged when none of the three import rules,
  neither simulator pattern and not the \<open>execute\<close> pattern matches in it, when moreover no
  import list in it names \<open>transpile\<close> twice, when the line \<open>from qiskit import transpile\<close>
  does not occur twice in a row in it, and when the installation comment is not due:
  the input does not mention \<open>qiskit\<close>, or it holds \<open>pip install qiskit-aer\<close> already.
\<close>

theorem clean_input_unchanged:
  assumes "re_search aer_import_pattern x = None"
    and "re_search basicaer_import_pattern x = None"
    and "re_search execute_import_pattern x = None"
    and "re_search basicaer_qasm_pattern x = None"
    and "re_search aer_qasm_pattern x = None"
    and "re_search execute_pattern x = None"
    and "re_search double_transpile x = None"
    and "\<not> py_in (transpile_import_line @ transpile_import_line) x"
    and "py_in ''qiskit'' x \<longrightarrow> py_in ''pip install qiskit-aer'' x"
  shows "fix_qiskit_code x = Inr x"
proof -
  from assms(9) have b: "add_banner x = x" by (auto simp: add_banner_def)
  from assms(6) have f: "finditer execute_pattern x = []"
    unfolding finditer_def re_search_def by (subst match_iter.simps) simp
  have "rule_a x = Inr x" "rule_b x = Inr x" "rule_c x = Inr x"
    "fix_basicaer_qasm x = Inr x" "fix_aer_qasm x = Inr x"
    "ensure_transpile_import x = Inr x" "rewrite_calls_stage x = Inr x"
    "dedup_in_list x = Inr x" "collapse_import_lines x = Inr x"
    using assms f
    by (simp_all add: rule_a_def rule_b_def rule_c_def fix_basicaer_qasm_def fix_aer_qasm_def
          ensure_transpile_import_def rewrite_calls_stage_def rewrite_calls_def dedup_in_list_def
          re_sub_no_match collapse_id)
  then show ?thesis by (simp add: fix_qiskit_code_def b)
qed

theorem clean_input_unchanged_witness:
  "fix_qiskit_code ''# pip install qiskit-aer\<newline>from qiskit import QuantumCircuit\<newline>''
     = Inr ''# pip install qiskit-aer\<newline>from qiskit import QuantumCircuit\<newline>''"
proof (rule clean_input_unchanged)
  let ?x = "''# pip install qiskit-aer\<newline>from qiskit import QuantumCircuit\<newline>''"
  show "re_search aer_import_pattern ?x = None" by code_simp
  show "re_search basicaer_import_pattern ?x = None" by code_simp
  show "re_search execute_import_pattern ?x = None" by code_simp
  show "re_search basicaer_qasm_pattern ?x = None" by code_simp
  show "re_search aer_qasm_pattern ?x = None" by code_simp
  show "re_search execute_pattern ?x = None" by code_simp
  show "re_search double_transpile ?x = None" by code_simp
  show "\<not> py_in (transpile_import_line @ transpile_import_line) ?x" by code_simp
  show "py_in ''qiskit'' ?x \<longrightarrow> py_in ''pip install qiskit-aer'' ?x" by code_simp
qed

end
